theory Spec2Isabelle
  imports Complex_Main "HOL-Library.Log_Nat" "HOL-Library.Word"
begin

section \<open>Python values and errors\<close>

text \<open>
  The script \<^verbatim>\<open>tools/generate_large_dicom.py\<close> works on Python integers (unbounded,
  modelled as \<^typ>\<open>int\<close>), on Python floats (IEEE binary64, modelled as the exact
  rational value of the float, or an infinity, or NaN) and on strings.  Every exception
  the code can raise is a value of \<open>error\<close>; a function that can raise returns
  \<open>error + 'a\<close> with \<open>Inl\<close> the exception.
\<close>

datatype error = ValueError | OverflowError | TypeError | ZeroDivisionError

datatype pyfloat = Finite rat | Infinity bool | NaN

subsection \<open>Rounding to binary64\<close>

text \<open>\<open>pow2 k\<close> is \<open>2\<^sup>k\<close> for an integer exponent.\<close>

definition pow2 :: "int \<Rightarrow> rat" where
  "pow2 k = (if 0 \<le> k then 2 ^ nat k else 1 / 2 ^ nat (- k))"

text \<open>Round to the nearest integer, a tie to the even neighbour.\<close>

definition round_half_even :: "rat \<Rightarrow> int" where
  "round_half_even q =
     (let f = \<lfloor>q\<rfloor>; d = q - of_int f
      in if d < 1 / 2 then f
         else if 1 / 2 < d then f + 1
         else if even f then f else f + 1)"

text \<open>
  \<open>binary_exponent q\<close> is \<open>\<lfloor>log\<^sub>2 q\<rfloor>\<close> for a positive rational \<open>q = a / b\<close>: the
  difference of the bit lengths of \<open>a\<close> and \<open>b\<close>, or one less.
\<close>

definition binary_exponent :: "rat \<Rightarrow> int" where
  "binary_exponent q =
     (let (a, b) = quotient_of q; d = bitlen a - bitlen b
      in if pow2 d \<le> q then d else d - 1)"

text \<open>
  The binary64 value nearest to a non-negative rational (ties to even): 53 significant
  bits, the exponent not below that of the subnormal numbers.  The result can be
  \<open>2\<^sup>1\<^sup>0\<^sup>2\<^sup>4\<close> or more, which \<open>to_float\<close> turns into an infinity.
\<close>

definition round_double :: "rat \<Rightarrow> rat" where
  "round_double q =
     (if q = 0 then 0
      else let e = max (binary_exponent q) (- 1022); u = pow2 (e - 52)
           in of_int (round_half_even (q / u)) * u)"

definition to_float :: "bool \<Rightarrow> rat \<Rightarrow> pyfloat" where
  "to_float neg q =
     (let r = round_double q
      in if 2 ^ 1024 \<le> r then Infinity neg
         else Finite (if neg then - r else r))"

text \<open>\<^verbatim>\<open>x * k\<close> for a float \<open>x\<close> and a positive integer constant \<open>k\<close>.\<close>

fun float_times :: "pyfloat \<Rightarrow> int \<Rightarrow> pyfloat" where
  "float_times (Finite q) k = to_float (q < 0) (\<bar>q\<bar> * of_int k)"
| "float_times (Infinity neg) k = Infinity neg"
| "float_times NaN k = NaN"

text \<open>\<^verbatim>\<open>int(x)\<close> for a float: truncation towards zero; an infinity and NaN raise.\<close>

fun int_of_float :: "pyfloat \<Rightarrow> error + int" where
  "int_of_float (Finite q) = Inr (if 0 \<le> q then \<lfloor>q\<rfloor> else - \<lfloor>- q\<rfloor>)"
| "int_of_float (Infinity neg) = Inl OverflowError"
| "int_of_float NaN = Inl ValueError"

subsection \<open>Integer square root and numpy's square root\<close>

text \<open>\<open>isqrt n\<close> is \<open>\<lfloor>\<surd>n\<rfloor>\<close>, computed two bits at a time.\<close>

function isqrt :: "int \<Rightarrow> int" where
  "isqrt n =
     (if n \<le> 0 then 0
      else let r = 2 * isqrt (n div 4)
           in if (r + 1) * (r + 1) \<le> n then r + 1 else r)"
  by pat_completeness auto
termination
  by (relation "measure nat") auto

declare isqrt.simps [simp del]

text \<open>
  \<^verbatim>\<open>int(np.sqrt(n))\<close> for a Python integer \<open>n\<close>.  numpy converts a Python integer from
  \<open>-2\<^sup>6\<^sup>3\<close> up to \<open>2\<^sup>6\<^sup>4 - 1\<close> to a 64-bit machine integer and that to binary64
  (rounding to nearest), takes the correctly rounded square root and \<^verbatim>\<open>int\<close> truncates
  it.  For a negative machine integer the square root is NaN, which \<^verbatim>\<open>int\<close> refuses
  with a ValueError.  An integer below \<open>-2\<^sup>6\<^sup>3\<close> or of \<open>2\<^sup>6\<^sup>4\<close> or more has no machine
  type: numpy keeps it as a Python object, for which the square root raises a
  TypeError.

  The rounded square root of a binary64 integer \<open>x\<close> with \<open>k = \<lfloor>\<surd>x\<rfloor>\<close> truncates to
  \<open>k + 1\<close> exactly when \<open>\<surd>x\<close> lies above the midpoint between \<open>k + 1\<close> and the binary64
  number before it, which is \<open>u = 2\<^bsup>bitlen k - 53\<^esup>\<close> below \<open>k + 1\<close>.
\<close>

definition sqrt_trunc :: "int \<Rightarrow> int" where
  "sqrt_trunc x =
     (let k = isqrt x; u = pow2 (bitlen k - 53); m = of_int (k + 1) - u / 2
      in if m * m < of_int x then k + 1 else k)"

definition int_np_sqrt :: "int \<Rightarrow> error + int" where
  "int_np_sqrt n =
     (if n < - (2 ^ 63) then Inl TypeError
      else if n < 0 then Inl ValueError
      else if 2 ^ 64 \<le> n then Inl TypeError
      else Inr (sqrt_trunc \<lfloor>round_double (of_int n)\<rfloor>))"

section \<open>Size planner\<close>

subsection \<open>Strings\<close>

text \<open>
  Strings are lists of characters with code points below 256.  \<^verbatim>\<open>str.upper\<close> maps
  the 26 lower-case letters to upper case, and the lower-case letters \<open>0xE0\<close> to \<open>0xFE\<close>
  (without the division sign \<open>0xF7\<close>) to the letters \<open>0x20\<close> below them.  Three
  characters have an upper-case form that is not one character of this range: \<open>0xDF\<close>
  gives \<^verbatim>\<open>SS\<close>, and the forms of \<open>0xB5\<close> and \<open>0xFF\<close> lie above 255.  The model leaves
  these three in place: neither they nor their upper-case forms are white space or
  occur in a numeric literal or a suffix, so that \<^verbatim>\<open>float\<close> and \<^verbatim>\<open>int\<close> refuse the
  string either way.

  \<^verbatim>\<open>str.strip\<close> removes the characters for which \<^verbatim>\<open>str.isspace\<close> holds from both ends:
  tab, line feed, vertical tab, form feed, carriage return, the four separators
  \<open>0x1C\<close> to \<open>0x1F\<close>, the space, the next-line character \<open>0x85\<close> and the no-break space
  \<open>0xA0\<close>.  The parsers behind \<^verbatim>\<open>float\<close> and \<^verbatim>\<open>int\<close> skip the six characters of C's
  \<^verbatim>\<open>isspace\<close> and, because they replace them by a space first, \<open>0x85\<close> and \<open>0xA0\<close>.
\<close>

definition latin1_lower :: string where
  "latin1_lower =
     [CHR 0xE0, CHR 0xE1, CHR 0xE2, CHR 0xE3, CHR 0xE4, CHR 0xE5, CHR 0xE6, CHR 0xE7,
      CHR 0xE8, CHR 0xE9, CHR 0xEA, CHR 0xEB, CHR 0xEC, CHR 0xED, CHR 0xEE, CHR 0xEF,
      CHR 0xF0, CHR 0xF1, CHR 0xF2, CHR 0xF3, CHR 0xF4, CHR 0xF5, CHR 0xF6, CHR 0xF8,
      CHR 0xF9, CHR 0xFA, CHR 0xFB, CHR 0xFC, CHR 0xFD, CHR 0xFE]"

definition latin1_upper :: string where
  "latin1_upper =
     [CHR 0xC0, CHR 0xC1, CHR 0xC2, CHR 0xC3, CHR 0xC4, CHR 0xC5, CHR 0xC6, CHR 0xC7,
      CHR 0xC8, CHR 0xC9, CHR 0xCA, CHR 0xCB, CHR 0xCC, CHR 0xCD, CHR 0xCE, CHR 0xCF,
      CHR 0xD0, CHR 0xD1, CHR 0xD2, CHR 0xD3, CHR 0xD4, CHR 0xD5, CHR 0xD6, CHR 0xD8,
      CHR 0xD9, CHR 0xDA, CHR 0xDB, CHR 0xDC, CHR 0xDD, CHR 0xDE]"

definition upper_char :: "char \<Rightarrow> char" where
  "upper_char c =
     (case map_of (zip (''abcdefghijklmnopqrstuvwxyz'' @ latin1_lower)
                       (''ABCDEFGHIJKLMNOPQRSTUVWXYZ'' @ latin1_upper)) c of
        Some u \<Rightarrow> u
      | None \<Rightarrow> c)"

definition upper :: "string \<Rightarrow> string" where
  "upper s = map upper_char s"

definition is_parser_space :: "char \<Rightarrow> bool" where
  "is_parser_space c \<longleftrightarrow>
     c \<in> set [CHR 0x09, CHR 0x0A, CHR 0x0B, CHR 0x0C, CHR 0x0D, CHR '' '', CHR 0x85, CHR 0xA0]"

definition is_space :: "char \<Rightarrow> bool" where
  "is_space c \<longleftrightarrow> is_parser_space c \<or> c \<in> set [CHR 0x1C, CHR 0x1D, CHR 0x1E, CHR 0x1F]"

definition strip_with :: "(char \<Rightarrow> bool) \<Rightarrow> string \<Rightarrow> string" where
  "strip_with sp s = rev (dropWhile sp (rev (dropWhile sp s)))"

definition strip :: "string \<Rightarrow> string" where
  "strip s = strip_with is_space s"

definition endswith :: "string \<Rightarrow> string \<Rightarrow> bool" where
  "endswith s suffix \<longleftrightarrow>
     length suffix \<le> length s \<and> drop (length s - length suffix) s = suffix"

text \<open>The slice \<^verbatim>\<open>s[:-2]\<close>.\<close>

definition drop_last2 :: "string \<Rightarrow> string" where
  "drop_last2 s = take (length s - 2) s"

subsection \<open>Numeric literals\<close>

definition is_digit :: "char \<Rightarrow> bool" where
  "is_digit c \<longleftrightarrow> c \<in> set ''0123456789''"

definition digit_value :: "char \<Rightarrow> int" where
  "digit_value c =
     (case map_of (zip ''0123456789'' [0, 1, 2, 3, 4, 5, 6, 7, 8, 9]) c of
        Some d \<Rightarrow> d
      | None \<Rightarrow> 0)"

definition digits_value :: "string \<Rightarrow> int" where
  "digits_value ds = foldl (\<lambda>acc c. 10 * acc + digit_value c) 0 ds"

fun take_sign :: "string \<Rightarrow> bool \<times> string" where
  "take_sign [] = (False, [])"
| "take_sign (c # cs) =
     (if c = CHR ''-'' then (True, cs)
      else if c = CHR ''+'' then (False, cs)
      else (False, c # cs))"

text \<open>
  \<^verbatim>\<open>float\<close> accepts single underscores between digits: an underscore must follow a
  digit and must be followed by a digit.  \<open>strip_underscores prev s\<close> returns \<open>s\<close>
  without its underscores, or \<open>None\<close> when one is misplaced; \<open>prev\<close> is the character
  before \<open>s\<close>.
\<close>

fun strip_underscores :: "char \<Rightarrow> string \<Rightarrow> string option" where
  "strip_underscores prev [] = (if prev = CHR ''_'' then None else Some [])"
| "strip_underscores prev (c # cs) =
     (if c = CHR ''_'' then
        (if is_digit prev then strip_underscores c cs else None)
      else if prev = CHR ''_'' \<and> \<not> is_digit c then None
      else map_option ((#) c) (strip_underscores c cs))"

text \<open>
  A decimal literal without sign: digits with an optional point, at least one digit,
  then an optional exponent \<^verbatim>\<open>e\<close> or \<^verbatim>\<open>E\<close> with an optional sign and at least one
  digit.  The result is the exact value.
\<close>

definition parse_exponent :: "string \<Rightarrow> int option" where
  "parse_exponent s =
     (case s of
        [] \<Rightarrow> Some 0
      | c # cs \<Rightarrow>
          if c = CHR ''e'' \<or> c = CHR ''E'' then
            (let (neg, ds) = take_sign cs
             in if ds \<noteq> [] \<and> list_all is_digit ds
                then Some (if neg then - digits_value ds else digits_value ds)
                else None)
          else None)"

definition pow10 :: "int \<Rightarrow> rat" where
  "pow10 k = (if 0 \<le> k then 10 ^ nat k else 1 / 10 ^ nat (- k))"

definition parse_decimal :: "string \<Rightarrow> rat option" where
  "parse_decimal s =
     (let int_part = takeWhile is_digit s;
          rest = dropWhile is_digit s;
          (frac_part, rest') =
             (case rest of
                [] \<Rightarrow> ([], [])
              | c # cs \<Rightarrow>
                  if c = CHR ''.'' then (takeWhile is_digit cs, dropWhile is_digit cs)
                  else ([], rest))
      in if int_part = [] \<and> frac_part = [] then None
         else case parse_exponent rest' of
                None \<Rightarrow> None
              | Some e \<Rightarrow>
                  Some (of_int (digits_value (int_part @ frac_part))
                        * pow10 (e - int (length frac_part))))"

text \<open>
  \<^verbatim>\<open>float(s)\<close>: surrounding white space is skipped, underscores are checked and
  removed, then the text is a signed decimal literal or a signed \<^verbatim>\<open>inf\<close>,
  \<^verbatim>\<open>infinity\<close> or \<^verbatim>\<open>nan\<close> in any letter case.  A literal beyond the binary64 range
  becomes an infinity, not an error.
\<close>

definition float_of_string :: "string \<Rightarrow> error + pyfloat" where
  "float_of_string s =
     (case strip_underscores (CHR 0x00) (strip_with is_parser_space s) of
        None \<Rightarrow> Inl ValueError
      | Some t \<Rightarrow>
          (let (neg, body) = take_sign t
           in if upper body = ''INF'' \<or> upper body = ''INFINITY'' then Inr (Infinity neg)
              else if upper body = ''NAN'' then Inr NaN
              else case parse_decimal body of
                     None \<Rightarrow> Inl ValueError
                   | Some q \<Rightarrow> Inr (to_float neg q)))"

text \<open>
  \<^verbatim>\<open>int(s)\<close> in base 10: white space, an optional sign, then digits with single
  underscores between them, then white space.  The interpreter's configurable cap on
  the number of digits of the literal is not part of the model.
\<close>

fun underscores_ok :: "string \<Rightarrow> bool" where
  "underscores_ok [] = True"
| "underscores_ok [c] = (c \<noteq> CHR ''_'')"
| "underscores_ok (c # d # cs) =
     (\<not> (c = CHR ''_'' \<and> d = CHR ''_'') \<and> underscores_ok (d # cs))"

definition int_of_string :: "string \<Rightarrow> error + int" where
  "int_of_string s =
     (let (neg, t) = take_sign (dropWhile is_parser_space s);
          body = takeWhile (\<lambda>c. is_digit c \<or> c = CHR ''_'') t;
          rest = dropWhile (\<lambda>c. is_digit c \<or> c = CHR ''_'') t
      in if body = [] \<or> hd body = CHR ''_'' \<or> \<not> underscores_ok body
            \<or> dropWhile is_parser_space rest \<noteq> []
         then Inl ValueError
         else let v = digits_value (filter is_digit body)
              in Inr (if neg then - v else v))"

subsection \<open>\<^verbatim>\<open>parse_size\<close>\<close>

definition scaled_int :: "string \<Rightarrow> nat \<Rightarrow> error + int" where
  "scaled_int literal k =
     (case float_of_string literal of
        Inl e \<Rightarrow> Inl e
      | Inr x \<Rightarrow> int_of_float (((\<lambda>y. float_times y 1024) ^^ k) x))"

definition parse_size :: "string \<Rightarrow> error + int" where
  "parse_size size_str =
     (let size_str = strip (upper size_str)
      in if endswith size_str ''MB'' then scaled_int (drop_last2 size_str) 2
         else if endswith size_str ''GB'' then scaled_int (drop_last2 size_str) 3
         else if endswith size_str ''KB'' then scaled_int (drop_last2 size_str) 1
         else int_of_string size_str)"

text \<open>
  The value of the literal \<open>int_part.frac_part\<close>, and the float product that
  \<^verbatim>\<open>parse_size\<close> truncates for it: \<^verbatim>\<open>float(literal) * 1024\<close> taken \<open>k\<close> times.
\<close>

definition decimal_value :: "string \<Rightarrow> string \<Rightarrow> rat" where
  "decimal_value int_part frac_part =
     of_int (digits_value (int_part @ frac_part)) * pow10 (- int (length frac_part))"

definition scaled_product :: "string \<Rightarrow> string \<Rightarrow> nat \<Rightarrow> pyfloat" where
  "scaled_product int_part frac_part k =
     ((\<lambda>y. float_times y 1024) ^^ k) (to_float False (decimal_value int_part frac_part))"

text \<open>
  Two characters differ at most in letter case: they are equal, or one is a lower-case
  letter and the other the same letter in upper case.
\<close>

definition case_variant :: "char \<Rightarrow> char \<Rightarrow> bool" where
  "case_variant c d \<longleftrightarrow>
     c = d
     \<or> (c, d) \<in> set (zip ''abcdefghijklmnopqrstuvwxyz'' ''ABCDEFGHIJKLMNOPQRSTUVWXYZ'')
     \<or> (d, c) \<in> set (zip ''abcdefghijklmnopqrstuvwxyz'' ''ABCDEFGHIJKLMNOPQRSTUVWXYZ'')"

text \<open>The first character of \<open>s\<close> after leading white space is a minus sign.\<close>

definition leading_minus :: "string \<Rightarrow> bool" where
  "leading_minus s \<longleftrightarrow>
     (case dropWhile is_space s of [] \<Rightarrow> False | c # cs \<Rightarrow> c = CHR ''-'')"

subsection \<open>\<^verbatim>\<open>calculate_dimensions\<close>\<close>

text \<open>
  The tier computation of \<^verbatim>\<open>calculate_dimensions\<close> (up to the comment
  \<^verbatim>\<open># Ensure dimensions are reasonable\<close>): the width and height before they are
  clamped.
\<close>

definition tier_dimensions :: "int \<Rightarrow> int \<Rightarrow> error + (int \<times> int)" where
  "tier_dimensions target_size_bytes bits_per_pixel =
     (let header_overhead = 10 * 1024;
          pixel_data_size = target_size_bytes - header_overhead;
          bytes_per_pixel = bits_per_pixel div 8
      in if bytes_per_pixel = 0 then Inl ZeroDivisionError
         else let total_pixels = pixel_data_size div bytes_per_pixel
              in if total_pixels < 512 * 512 then
                   (case int_np_sqrt total_pixels of
                      Inl e \<Rightarrow> Inl e
                    | Inr side \<Rightarrow> Inr (side, side))
                 else if total_pixels < 1024 * 1024 then
                   Inr (1024, total_pixels div 1024)
                 else if total_pixels < 2048 * 2048 then
                   Inr (2048, total_pixels div 2048)
                 else
                   (case int_np_sqrt total_pixels of
                      Inl e \<Rightarrow> Inl e
                    | Inr side \<Rightarrow> Inr (side, side)))"

definition calculate_dimensions :: "int \<Rightarrow> int \<Rightarrow> error + (int \<times> int)" where
  "calculate_dimensions target_size_bytes bits_per_pixel =
     (case tier_dimensions target_size_bytes bits_per_pixel of
        Inl e \<Rightarrow> Inl e
      | Inr (width, height) \<Rightarrow>
          Inr (max 256 (min 8192 width), max 256 (min 8192 height)))"

text \<open>
  The aspect-ratio tier that the \<^verbatim>\<open>if\<close>/\<^verbatim>\<open>elif\<close> chain of \<^verbatim>\<open>calculate_dimensions\<close>
  selects for a target size.
\<close>

datatype tier = Small | Medium | Large | Very_large

definition aspect_tier :: "int \<Rightarrow> int \<Rightarrow> tier" where
  "aspect_tier target_size_bytes bits_per_pixel =
     (let total_pixels = (target_size_bytes - 10 * 1024) div (bits_per_pixel div 8)
      in if total_pixels < 512 * 512 then Small
         else if total_pixels < 1024 * 1024 then Medium
         else if total_pixels < 2048 * 2048 then Large
         else Very_large)"

section \<open>Raster synthesizer\<close>

text \<open>
  The branch of \<^verbatim>\<open>generate_realistic_medical_image\<close> for the modality \<^verbatim>\<open>'CT'\<close>.  The raster is a
  \<^verbatim>\<open>uint16\<close> array; the model gives the sample stored at column \<open>x\<close> of row \<open>y\<close>.  The
  numbers that \<^verbatim>\<open>np.random.normal\<close> returns are inputs of the model: \<open>ct_draws\<close>
  holds, for one pixel, the number drawn for it in each overlay whose mask contains it.
  The masks are evaluated in exact arithmetic.
\<close>

type_synonym uint16 = "16 word"

record ct_draws =
  body_draw :: real
  spine_draw :: real
  rib_draw :: "nat \<Rightarrow> real"
  lung_draw :: real

text \<open>
  \<^verbatim>\<open>.astype(np.uint16)\<close> on a binary64 number is C's conversion, as numpy's cast
  loop performs it on x86-64 for a value of magnitude below \<open>2\<^sup>3\<^sup>1\<close>: the fraction is
  cut off and, for a value outside the range of \<^verbatim>\<open>uint16\<close>, the low 16 bits of the
  integer are kept.
\<close>

definition astype_uint16 :: "real \<Rightarrow> uint16" where
  "astype_uint16 v = word_of_int (if 0 \<le> v then \<lfloor>v\<rfloor> else - \<lfloor>- v\<rfloor>)"

text \<open>\<^verbatim>\<open>np.clip(image, lo, hi)\<close> on one sample of the \<^verbatim>\<open>uint16\<close> array.\<close>

definition clip :: "uint16 \<Rightarrow> uint16 \<Rightarrow> uint16 \<Rightarrow> uint16" where
  "clip v lo hi = min hi (max v lo)"

definition body_mask :: "int \<Rightarrow> int \<Rightarrow> int \<Rightarrow> int \<Rightarrow> bool" where
  "body_mask width height x y \<longleftrightarrow>
     (let center_y = height div 2; center_x = width div 2
      in real_of_int ((x - center_x)\<^sup>2 + (y - center_y)\<^sup>2)
           < (real_of_int (min width height) * 0.4)\<^sup>2)"

definition spine_mask :: "int \<Rightarrow> int \<Rightarrow> int \<Rightarrow> int \<Rightarrow> bool" where
  "spine_mask width height x y \<longleftrightarrow>
     (let center_y = height div 2; center_x = width div 2
      in real_of_int \<bar>x - center_x\<bar> < real_of_int width * 0.05
         \<and> real_of_int y > real_of_int center_y * 0.5
         \<and> real_of_int y < real_of_int center_y * 1.5)"

text \<open>The \<open>i\<close>-th of the eight angles \<^verbatim>\<open>np.linspace(0, np.pi, 8)\<close>.\<close>

definition rib_angle :: "nat \<Rightarrow> real" where
  "rib_angle i = real i * pi / 7"

definition rib_mask :: "int \<Rightarrow> int \<Rightarrow> nat \<Rightarrow> int \<Rightarrow> int \<Rightarrow> bool" where
  "rib_mask width height i x y \<longleftrightarrow>
     (let center_y = height div 2; center_x = width div 2;
          rib_x = real_of_int center_x + cos (rib_angle i) * real_of_int width * 0.3;
          rib_y = real_of_int center_y + sin (rib_angle i) * real_of_int height * 0.2
      in (real_of_int x - rib_x)\<^sup>2 + (real_of_int y - rib_y)\<^sup>2
           < (real_of_int width * 0.02)\<^sup>2)"

definition lung_left :: "int \<Rightarrow> int \<Rightarrow> int \<Rightarrow> int \<Rightarrow> bool" where
  "lung_left width height x y \<longleftrightarrow>
     (let center_y = height div 2; center_x = width div 2
      in (real_of_int (x - center_x) + real_of_int width * 0.15)\<^sup>2
           + real_of_int ((y - center_y)\<^sup>2)
           < (real_of_int width * 0.12)\<^sup>2)"

definition lung_right :: "int \<Rightarrow> int \<Rightarrow> int \<Rightarrow> int \<Rightarrow> bool" where
  "lung_right width height x y \<longleftrightarrow>
     (let center_y = height div 2; center_x = width div 2
      in (real_of_int (x - center_x) - real_of_int width * 0.15)\<^sup>2
           + real_of_int ((y - center_y)\<^sup>2)
           < (real_of_int width * 0.12)\<^sup>2)"

text \<open>
  The sample at \<open>(x, y)\<close> after the overlays in the order of the source (body, spine,
  the eight ribs, lungs) and the final \<^verbatim>\<open>np.clip(image, 0, 65535)\<close>.
\<close>

definition ct_overlays :: "int \<Rightarrow> int \<Rightarrow> ct_draws \<Rightarrow> int \<Rightarrow> int \<Rightarrow> uint16" where
  "ct_overlays width height d x y =
     (let image = 0;
          image = (if body_mask width height x y then astype_uint16 (body_draw d) else image);
          image = (if spine_mask width height x y then astype_uint16 (spine_draw d) else image);
          image = fold (\<lambda>i image. if rib_mask width height i x y
                                    then astype_uint16 (rib_draw d i) else image)
                       [0..<8] image;
          image = (if lung_left width height x y \<or> lung_right width height x y
                   then astype_uint16 (lung_draw d) else image)
      in image)"

definition generate_realistic_medical_image_CT :: "int \<Rightarrow> int \<Rightarrow> ct_draws \<Rightarrow> int \<Rightarrow> int \<Rightarrow> uint16" where
  "generate_realistic_medical_image_CT width height d x y = clip (ct_overlays width height d x y) 0 65535"

text \<open>The draws that equal the mean of each distribution.\<close>

definition mean_draws :: ct_draws where
  "mean_draws = \<lparr>body_draw = 1000, spine_draw = 3000, rib_draw = (\<lambda>i. 2800), lung_draw = - 1000\<rparr>"

section \<open>Container writer\<close>

text \<open>
  \<^verbatim>\<open>create_dicom_file\<close> up to the assembled data set: the identifiers, the modality and
  the raster dimensions.  \<^verbatim>\<open>generate_uid\<close> is pydicom's generator; the model takes the
  sequence \<open>gen\<close> of identifiers it hands out and the number \<open>n\<close> of identifiers drawn
  so far, and returns the number drawn afterwards.  The storage classes are pydicom's
  constants.
\<close>

type_synonym uid = string

definition CTImageStorage :: uid where
  "CTImageStorage = ''1.2.840.10008.5.1.4.1.1.2''"

definition MRImageStorage :: uid where
  "MRImageStorage = ''1.2.840.10008.5.1.4.1.1.4''"

definition ExplicitVRLittleEndian :: uid where
  "ExplicitVRLittleEndian = ''1.2.840.10008.1.2.1''"

record file_meta =
  MediaStorageSOPClassUID :: uid
  MediaStorageSOPInstanceUID :: uid
  TransferSyntaxUID :: uid
  ImplementationClassUID :: uid
  ImplementationVersionName :: string

record dataset =
  meta :: file_meta
  SOPClassUID :: uid
  SOPInstanceUID :: uid
  PatientName :: string
  StudyInstanceUID :: uid
  SeriesInstanceUID :: uid
  Modality :: string
  Rows :: int
  Columns :: int

definition create_dicom_file ::
  "(nat \<Rightarrow> uid) \<Rightarrow> nat \<Rightarrow> int \<Rightarrow> string \<Rightarrow> string \<Rightarrow> error + (dataset \<times> nat)" where
  "create_dicom_file gen n target_size' modality patient_name =
     (case calculate_dimensions target_size' 16 of
        Inl e \<Rightarrow> Inl e
      | Inr (width, height) \<Rightarrow>
          (let fm = \<lparr>MediaStorageSOPClassUID =
                       (if modality = ''CT'' then CTImageStorage else MRImageStorage),
                     MediaStorageSOPInstanceUID = gen n,
                     TransferSyntaxUID = ExplicitVRLittleEndian,
                     ImplementationClassUID = gen (n + 1),
                     ImplementationVersionName = ''LARGE_DICOM_GEN_1.0''\<rparr>;
               ds = \<lparr>meta = fm,
                     SOPClassUID = MediaStorageSOPClassUID fm,
                     SOPInstanceUID = MediaStorageSOPInstanceUID fm,
                     PatientName = patient_name,
                     StudyInstanceUID = gen (n + 2),
                     SeriesInstanceUID = gen (n + 3),
                     Modality = modality,
                     Rows = height,
                     Columns = width\<rparr>
           in Inr (ds, n + 4)))"

text \<open>The identifiers of a data set that \<^verbatim>\<open>generate_uid\<close> produced, in the order drawn.\<close>

definition generated_uids :: "dataset \<Rightarrow> uid list" where
  "generated_uids ds =
     [MediaStorageSOPInstanceUID (meta ds), ImplementationClassUID (meta ds),
      StudyInstanceUID ds, SeriesInstanceUID ds]"

text \<open>A sample generator that never repeats an identifier.\<close>

definition sample_uids :: "nat \<Rightarrow> uid" where
  "sample_uids k = ''2.25.'' @ replicate (Suc k) (CHR ''1'')"

section \<open>Invocation surface\<close>







section \<open>Arithmetic lemmas\<close>

lemma pow2_powi: "pow2 k = 2 powi k"
  by (simp add: pow2_def power_int_def inverse_eq_divide power_one_over)

lemma pow2_pos: "0 < pow2 k"
  by (simp add: pow2_powi)

lemma pow2_add: "pow2 (a + b) = pow2 a * pow2 b"
  by (simp add: pow2_powi power_int_add)

lemma pow2_mono: "a \<le> b \<Longrightarrow> pow2 a \<le> pow2 b"
  by (simp add: pow2_powi power_int_increasing)

lemma pow2_nat: "0 \<le> k \<Longrightarrow> pow2 k = 2 ^ nat k"
  by (simp add: pow2_def)

lemma isqrt_nonneg: "0 \<le> isqrt n"
proof (induction n rule: isqrt.induct)
  case (1 n)
  show ?case
  proof (cases "n \<le> 0")
    case True
    then show ?thesis by (simp add: isqrt.simps)
  next
    case False
    with 1 have "0 \<le> isqrt (n div 4)" by simp
    with False show ?thesis
      by (subst isqrt.simps) (simp add: Let_def)
  qed
qed

lemma isqrt_bounds:
  "0 \<le> n \<Longrightarrow> isqrt n * isqrt n \<le> n \<and> n < (isqrt n + 1) * (isqrt n + 1)"
proof (induction n rule: isqrt.induct)
  case (1 n)
  show ?case
  proof (cases "n \<le> 0")
    case True
    with 1(2) have "n = 0" by simp
    then show ?thesis by (simp add: isqrt.simps)
  next
    case False
    define s where "s = isqrt (n div 4)"
    have ih: "s * s \<le> n div 4 \<and> n div 4 < (s + 1) * (s + 1)"
      using 1(1) [OF False] 1(2) False by (simp add: s_def)
    have s0: "0 \<le> s" by (simp add: s_def isqrt_nonneg)
    have lo: "4 * (s * s) \<le> n" using ih by linarith
    have "n div 4 + 1 \<le> (s + 1) * (s + 1)" using ih by linarith
    then have hi: "n < 4 * ((s + 1) * (s + 1))" by linarith
    have eq: "isqrt n = (if (2 * s + 1) * (2 * s + 1) \<le> n then 2 * s + 1 else 2 * s)"
      using False by (subst isqrt.simps) (simp add: Let_def s_def)
    show ?thesis
    proof (cases "(2 * s + 1) * (2 * s + 1) \<le> n")
      case True
      then have "isqrt n = 2 * s + 1" using eq by simp
      moreover have "n < (2 * s + 1 + 1) * (2 * s + 1 + 1)"
        using hi by (simp add: algebra_simps)
      ultimately show ?thesis using True by simp
    next
      case F: False
      then have "isqrt n = 2 * s" using eq by simp
      moreover have "2 * s * (2 * s) \<le> n" using lo by (simp add: algebra_simps)
      ultimately show ?thesis using F by simp
    qed
  qed
qed

lemma isqrt_mono: "a \<le> b \<Longrightarrow> isqrt a \<le> isqrt b"
proof (cases "0 \<le> a")
  case False
  then show ?thesis by (simp add: isqrt.simps [of a] isqrt_nonneg)
next
  case True
  assume ab: "a \<le> b"
  show ?thesis
  proof (rule ccontr)
    assume "\<not> isqrt a \<le> isqrt b"
    then have lt: "isqrt b + 1 \<le> isqrt a" by simp
    have "0 \<le> isqrt b + 1" using isqrt_nonneg [of b] by simp
    then have "(isqrt b + 1) * (isqrt b + 1) \<le> isqrt a * isqrt a"
      using lt by (intro mult_mono) auto
    moreover have "isqrt a * isqrt a \<le> a" using isqrt_bounds [OF True] by simp
    moreover have "b < (isqrt b + 1) * (isqrt b + 1)"
      using isqrt_bounds [of b] True ab by simp
    ultimately show False using ab by linarith
  qed
qed

lemma sqrt_trunc_mono:
  assumes "0 \<le> x" "x \<le> y"
  shows "sqrt_trunc x \<le> sqrt_trunc y"
proof (cases "isqrt x = isqrt y")
  case True
  then show ?thesis
    using assms by (auto simp: sqrt_trunc_def Let_def)
next
  case False
  with isqrt_mono [OF assms(2)] have "isqrt x + 1 \<le> isqrt y" by simp
  moreover have "sqrt_trunc x \<le> isqrt x + 1" by (simp add: sqrt_trunc_def Let_def)
  moreover have "isqrt y \<le> sqrt_trunc y" by (simp add: sqrt_trunc_def Let_def)
  ultimately show ?thesis by linarith
qed

lemma sqrt_trunc_nonneg: "0 \<le> sqrt_trunc x"
  using isqrt_nonneg [of x] by (simp add: sqrt_trunc_def Let_def)

lemma round_half_even_of_int: "round_half_even (of_int n) = n"
  by (simp add: round_half_even_def)

lemma round_half_even_bounds:
  "\<lfloor>q\<rfloor> \<le> round_half_even q \<and> round_half_even q \<le> \<lfloor>q\<rfloor> + 1"
  by (simp add: round_half_even_def Let_def)

lemma round_half_even_mono:
  assumes "p \<le> q"
  shows "round_half_even p \<le> round_half_even q"
proof (cases "\<lfloor>p\<rfloor> = \<lfloor>q\<rfloor>")
  case True
  then show ?thesis
    using assms by (auto simp: round_half_even_def Let_def)
next
  case False
  with floor_mono [OF assms] have lt: "\<lfloor>p\<rfloor> + 1 \<le> \<lfloor>q\<rfloor>" by simp
  then show ?thesis
    using round_half_even_bounds [of p] round_half_even_bounds [of q] by linarith
qed

lemma pow2_diff: "pow2 (a - b) = pow2 a / pow2 b"
  by (simp add: pow2_powi power_int_diff)

lemma bitlen_pow2_bounds:
  assumes "0 < a"
  shows "pow2 (bitlen a - 1) \<le> of_int a \<and> of_int a < pow2 (bitlen a)"
proof -
  have b1: "1 \<le> bitlen a" using assms bitlen_eq_zero_iff [of a] bitlen_nonneg [of a] by linarith
  have "(2::int) ^ nat (bitlen a - 1) \<le> a \<and> a < 2 ^ nat (bitlen a)"
    using bitlen_bounds [OF assms] .
  then have "(of_int ((2::int) ^ nat (bitlen a - 1)) :: rat) \<le> of_int a
      \<and> (of_int a :: rat) < of_int (2 ^ nat (bitlen a))"
    by (simp only: of_int_le_iff of_int_less_iff)
  then show ?thesis using b1 by (simp add: pow2_def)
qed

lemma binary_exponent_bounds:
  assumes "0 < q"
  shows "pow2 (binary_exponent q) \<le> q \<and> q < pow2 (binary_exponent q + 1)"
proof -
  obtain a b where ab: "quotient_of q = (a, b)" by (cases "quotient_of q")
  have b0: "0 < b" using quotient_of_denom_pos [OF ab] .
  have q: "q = of_int a / of_int b" using quotient_of_div [OF ab] .
  have a0: "0 < a" using assms b0 by (simp add: q zero_less_divide_iff)
  define d where "d = bitlen a - bitlen b"
  note A = bitlen_pow2_bounds [OF a0] and B = bitlen_pow2_bounds [OF b0]
  have b0': "(0::rat) < of_int b" using b0 by simp
  have "q < pow2 (bitlen a) / pow2 (bitlen b - 1)"
    unfolding q using A B a0 b0' pow2_pos [of "bitlen b - 1"]
    by (intro frac_less) auto
  also have "\<dots> = pow2 (d + 1)" by (simp add: d_def pow2_diff [symmetric] algebra_simps)
  finally have up: "q < pow2 (d + 1)" .
  have "pow2 (bitlen a - 1) / pow2 (bitlen b) < q"
    unfolding q using A B a0 b0' pow2_pos [of "bitlen a - 1"]
    by (intro frac_less2) auto
  moreover have "pow2 (bitlen a - 1) / pow2 (bitlen b) = pow2 (d - 1)"
    by (simp add: d_def pow2_diff [symmetric] algebra_simps)
  ultimately have lo: "pow2 (d - 1) < q" by simp
  have e: "binary_exponent q = (if pow2 d \<le> q then d else d - 1)"
    by (simp add: binary_exponent_def ab d_def Let_def)
  show ?thesis using up lo by (auto simp: e)
qed

lemma round_double_nonneg: "0 \<le> q \<Longrightarrow> 0 \<le> round_double q"
proof -
  assume q: "0 \<le> q"
  have "0 \<le> round_half_even (q / pow2 k)" for k
    using round_half_even_mono [of 0 "q / pow2 k"] q pow2_pos [of k]
    by (simp add: round_half_even_of_int [of 0, simplified])
  then show ?thesis
    using pow2_pos by (simp add: round_double_def Let_def less_imp_le)
qed

lemma round_double_mono:
  assumes "0 \<le> p" "p \<le> q"
  shows "round_double p \<le> round_double q"
proof (cases "p = 0")
  case True
  then show ?thesis using round_double_nonneg [of q] assms by (simp add: round_double_def)
next
  case False
  then have p0: "0 < p" and q0: "0 < q" using assms by auto
  define ep where "ep = max (binary_exponent p) (- 1022)"
  define eq where "eq = max (binary_exponent q) (- 1022)"
  have rp: "round_double p = of_int (round_half_even (p / pow2 (ep - 52))) * pow2 (ep - 52)"
    using p0 by (simp add: round_double_def ep_def Let_def)
  have rq: "round_double q = of_int (round_half_even (q / pow2 (eq - 52))) * pow2 (eq - 52)"
    using q0 by (simp add: round_double_def eq_def Let_def)
  note P = binary_exponent_bounds [OF p0] and Q = binary_exponent_bounds [OF q0]
  have be_le: "binary_exponent p \<le> binary_exponent q"
  proof (rule ccontr)
    assume "\<not> binary_exponent p \<le> binary_exponent q"
    then have "binary_exponent q + 1 \<le> binary_exponent p" by simp
    from pow2_mono [OF this] P Q assms show False by linarith
  qed
  then have e_le: "ep \<le> eq" by (simp add: ep_def eq_def)
  show ?thesis
  proof (cases "ep = eq")
    case True
    have "p / pow2 (eq - 52) \<le> q / pow2 (eq - 52)"
      using assms pow2_pos [of "eq - 52"] by (simp add: divide_right_mono)
    from round_half_even_mono [OF this] show ?thesis
      using pow2_pos [of "eq - 52"] by (simp add: rp rq True mult_right_mono)
  next
    case False
    with e_le have lt: "ep + 1 \<le> eq" by simp
    then have eqq: "eq = binary_exponent q" by (auto simp: eq_def ep_def)
    have "p < pow2 (binary_exponent p + 1)" using P by simp
    also have "\<dots> \<le> pow2 (ep + 1)" by (rule pow2_mono) (simp add: ep_def)
    finally have "p / pow2 (ep - 52) < pow2 (ep + 1) / pow2 (ep - 52)"
      using pow2_pos [of "ep - 52"] by (simp add: divide_strict_right_mono)
    also have "\<dots> = of_int (2 ^ 53)"
      using pow2_diff [of "ep + 1" "ep - 52"] by (simp add: pow2_def)
    finally have "round_half_even (p / pow2 (ep - 52)) \<le> 2 ^ 53"
      using round_half_even_mono [of "p / pow2 (ep - 52)" "of_int (2 ^ 53)"]
      by (simp only: round_half_even_of_int less_imp_le)
    then have "(of_int (round_half_even (p / pow2 (ep - 52))) :: rat) \<le> of_int (2 ^ 53)"
      by (simp only: of_int_le_iff)
    then have "round_double p \<le> of_int (2 ^ 53) * pow2 (ep - 52)"
      using pow2_pos [of "ep - 52"] by (simp only: rp mult_right_mono less_imp_le)
    also have "of_int (2 ^ 53) * pow2 (ep - 52) = pow2 (ep + 1)"
    proof -
      have "pow2 (ep + 1) = pow2 53 * pow2 (ep - 52)"
        using pow2_add [of 53 "ep - 52"] by (simp add: add.commute)
      then show ?thesis by (simp add: pow2_def)
    qed
    also have "\<dots> \<le> pow2 eq" using lt by (rule pow2_mono)
    finally have up: "round_double p \<le> pow2 eq" .
    have "pow2 eq / pow2 (eq - 52) \<le> q / pow2 (eq - 52)"
      using Q eqq pow2_pos [of "eq - 52"] by (simp add: divide_right_mono)
    moreover have "pow2 eq / pow2 (eq - 52) = of_int (2 ^ 52)"
      using pow2_diff [of eq "eq - 52"] by (simp add: pow2_def)
    ultimately have "2 ^ 52 \<le> round_half_even (q / pow2 (eq - 52))"
      using round_half_even_mono [of "of_int (2 ^ 52)" "q / pow2 (eq - 52)"]
      by (simp only: round_half_even_of_int)
    then have "(of_int (2 ^ 52) :: rat) \<le> of_int (round_half_even (q / pow2 (eq - 52)))"
      by (simp only: of_int_le_iff)
    then have "of_int (2 ^ 52) * pow2 (eq - 52) \<le> round_double q"
      using pow2_pos [of "eq - 52"] by (simp only: rq mult_right_mono less_imp_le)
    moreover have "of_int (2 ^ 52) * pow2 (eq - 52) = pow2 eq"
    proof -
      have "pow2 eq = pow2 52 * pow2 (eq - 52)"
        using pow2_add [of 52 "eq - 52"] by simp
      then show ?thesis by (simp add: pow2_def)
    qed
    ultimately show ?thesis using up by linarith
  qed
qed

lemma int_np_sqrt_mono:
  assumes "int_np_sqrt a = Inr x" "int_np_sqrt b = Inr y" "a \<le> b"
  shows "0 \<le> x \<and> x \<le> y"
proof -
  have a0: "0 \<le> a" and x: "x = sqrt_trunc \<lfloor>round_double (of_int a)\<rfloor>"
    using assms(1) by (auto simp: int_np_sqrt_def split: if_splits)
  have y: "y = sqrt_trunc \<lfloor>round_double (of_int b)\<rfloor>"
    using assms(2) by (auto simp: int_np_sqrt_def split: if_splits)
  have "round_double (of_int a) \<le> round_double (of_int b)"
    using a0 assms(3) by (intro round_double_mono) auto
  then have le: "\<lfloor>round_double (of_int a)\<rfloor> \<le> \<lfloor>round_double (of_int b)\<rfloor>"
    by (rule floor_mono)
  have "0 \<le> \<lfloor>round_double (of_int a)\<rfloor>"
    using round_double_nonneg [of "of_int a"] a0 by simp
  from sqrt_trunc_mono [OF this le] show ?thesis
    by (simp add: x y sqrt_trunc_nonneg)
qed

lemma int_np_sqrt_cases:
  "int_np_sqrt n = (if n < - (2 ^ 63) then Inl TypeError else if n < 0 then Inl ValueError
     else if 2 ^ 64 \<le> n then Inl TypeError
     else Inr (sqrt_trunc \<lfloor>round_double (of_int n)\<rfloor>))"
  by (simp add: int_np_sqrt_def)

subsection \<open>Equations for evaluation\<close>

lemma pow2_code [code]:
  "pow2 k = (if 0 \<le> k then of_int (2 ^ nat k) else 1 / of_int (2 ^ nat (- k)))"
  by (simp add: pow2_def)

lemma bitlen_gt_iff:
  assumes "0 \<le> n"
  shows "int k < bitlen n \<longleftrightarrow> 2 ^ k \<le> n"
proof (cases "n = 0")
  case True
  then show ?thesis by simp
next
  case False
  with assms have n: "0 < n" by simp
  note B = bitlen_bounds [OF n]
  have b1: "1 \<le> bitlen n" using n bitlen_eq_zero_iff [of n] bitlen_nonneg [of n] by linarith
  show ?thesis
  proof
    assume "int k < bitlen n"
    then have "k \<le> nat (bitlen n - 1)" by simp
    then have "(2::int) ^ k \<le> 2 ^ nat (bitlen n - 1)" by (simp add: power_increasing)
    with B show "2 ^ k \<le> n" by linarith
  next
    assume "2 ^ k \<le> n"
    with B have "(2::int) ^ k < 2 ^ nat (bitlen n)" by linarith
    then have "k < nat (bitlen n)" by (simp add: power_strict_increasing_iff)
    then show "int k < bitlen n" by simp
  qed
qed

lemma to_float_code [code]:
  "to_float neg q =
     (let r = round_double q
      in if 1024 < bitlen \<lfloor>r\<rfloor> then Infinity neg
         else Finite (if neg then - r else r))"
proof (cases "0 \<le> round_double q")
  case True
  then have f0: "0 \<le> \<lfloor>round_double q\<rfloor>" by simp
  have "(2::rat) ^ 1024 \<le> round_double q \<longleftrightarrow> 2 ^ 1024 \<le> \<lfloor>round_double q\<rfloor>"
    using le_floor_iff [of "2 ^ 1024" "round_double q"] by simp
  also have "\<dots> \<longleftrightarrow> int 1024 < bitlen \<lfloor>round_double q\<rfloor>"
    using bitlen_gt_iff [OF f0, of 1024] by simp
  finally show ?thesis by (simp add: to_float_def Let_def)
next
  case False
  then have "\<lfloor>round_double q\<rfloor> \<le> 0" by (simp add: floor_le_iff) 
  then have "bitlen \<lfloor>round_double q\<rfloor> = 0" by (simp add: bitlen_eq_zero_iff)
  moreover have "\<not> (2::rat) ^ 1024 \<le> round_double q"
  proof
    assume "(2::rat) ^ 1024 \<le> round_double q"
    moreover have "(0::rat) \<le> 2 ^ 1024" by simp
    ultimately show False using False by linarith
  qed
  ultimately show ?thesis by (simp add: to_float_def Let_def)
qed

section \<open>String lemmas\<close>

lemma upper_char_digit: "is_digit c \<Longrightarrow> upper_char c = c"
  by (simp add: is_digit_def) (elim disjE; simp add: upper_char_def latin1_lower_def latin1_upper_def)

lemma digit_not_space: "is_digit c \<Longrightarrow> \<not> is_space c \<and> \<not> is_parser_space c"
  by (simp add: is_digit_def) (elim disjE; simp add: is_space_def is_parser_space_def)

lemma digit_not_special:
  "is_digit c \<Longrightarrow> c \<noteq> CHR ''_'' \<and> c \<noteq> CHR ''-'' \<and> c \<noteq> CHR ''+'' \<and> c \<noteq> CHR ''.''
     \<and> c \<noteq> CHR ''B'' \<and> c \<noteq> CHR ''I'' \<and> c \<noteq> CHR ''N'' \<and> c \<noteq> CHR ''E'' \<and> c \<noteq> CHR ''e''"
  by (simp add: is_digit_def) (elim disjE; simp)

lemma upper_digits: "list_all is_digit ds \<Longrightarrow> upper ds = ds"
  by (induction ds) (simp_all add: upper_def upper_char_digit)

lemma upper_append: "upper (a @ b) = upper a @ upper b"
  by (simp add: upper_def)

lemma strip_with_id:
  assumes "s \<noteq> []" "\<not> sp (hd s)" "\<not> sp (last s)"
  shows "strip_with sp s = s"
proof -
  have "dropWhile sp s = s" using assms(1,2) by (cases s) auto
  moreover have "dropWhile sp (rev s) = rev s"
  proof -
    have "rev s \<noteq> []" "\<not> sp (hd (rev s))" using assms(1,3) by (simp_all add: hd_rev)
    then show ?thesis by (cases "rev s") auto
  qed
  ultimately show ?thesis by (simp add: strip_with_def)
qed

section \<open>Lemmas about \<^verbatim>\<open>parse_size\<close>\<close>

lemma digit_value_nonneg: "0 \<le> digit_value c"
  by (simp add: digit_value_def)

lemma foldl_digits_nonneg:
  "0 \<le> acc \<Longrightarrow> 0 \<le> foldl (\<lambda>acc c. 10 * acc + digit_value c) acc ds"
  by (induction ds arbitrary: acc) (simp_all add: digit_value_nonneg)

lemma digits_value_nonneg: "0 \<le> digits_value ds"
  by (simp add: digits_value_def foldl_digits_nonneg)

lemma pow10_pos: "0 < pow10 k"
  by (simp add: pow10_def)

lemma parse_decimal_nonneg: "parse_decimal s = Some q \<Longrightarrow> 0 \<le> q"
  using pow10_pos [THEN less_imp_le]
  by (auto simp: parse_decimal_def Let_def digits_value_nonneg
      split: list.splits if_splits option.splits prod.splits)

lemma to_float_Finite: "to_float neg q = Finite r \<Longrightarrow> r = (if neg then - round_double q else round_double q)"
  by (auto simp: to_float_def Let_def split: if_splits)

lemma float_times_nonneg:
  assumes "float_times x k = Finite r" "0 \<le> k" "\<And>q. x = Finite q \<Longrightarrow> 0 \<le> q"
  shows "0 \<le> r"
proof (cases x)
  case (Finite q)
  with assms(3) have q: "0 \<le> q" by simp
  from assms(1) Finite q have "to_float False (q * of_int k) = Finite r" by simp
  from to_float_Finite [OF this] have "r = round_double (q * of_int k)" by simp
  moreover have "0 \<le> q * of_int k" using q assms(2) by simp
  ultimately show ?thesis using round_double_nonneg by simp
qed (use assms(1) in simp_all)

lemma scaled_nonneg:
  assumes "((\<lambda>y. float_times y 1024) ^^ k) x = Finite r" "\<And>q. x = Finite q \<Longrightarrow> 0 \<le> q"
  shows "0 \<le> r"
  using assms
proof (induction k arbitrary: r)
  case 0
  then show ?case by simp
next
  case (Suc k)
  from Suc.prems(1) have "float_times (((\<lambda>y. float_times y 1024) ^^ k) x) 1024 = Finite r"
    by simp
  then show ?case
    by (rule float_times_nonneg) (use Suc.IH Suc.prems(2) in auto)
qed

lemma upper_char_cases:
  "upper_char c = c \<or> upper_char c \<in> set (''ABCDEFGHIJKLMNOPQRSTUVWXYZ'' @ latin1_upper)"
proof (cases "map_of (zip (''abcdefghijklmnopqrstuvwxyz'' @ latin1_lower)
                          (''ABCDEFGHIJKLMNOPQRSTUVWXYZ'' @ latin1_upper)) c")
  case None
  then show ?thesis by (simp add: upper_char_def)
next
  case (Some u)
  from map_of_SomeD [OF Some] have "u \<in> set (''ABCDEFGHIJKLMNOPQRSTUVWXYZ'' @ latin1_upper)"
    by (rule set_zip_rightD)
  with Some show ?thesis by (simp add: upper_char_def)
qed

lemma case_variant_upper: "case_variant c d \<Longrightarrow> upper_char c = upper_char d"
  by (simp add: case_variant_def) (elim disjE conjE; simp add: upper_char_def latin1_lower_def latin1_upper_def)

lemma upper_char_space: "is_space c \<Longrightarrow> upper_char c = c"
  by (simp add: is_space_def is_parser_space_def) (elim disjE; simp add: upper_char_def latin1_lower_def latin1_upper_def)

lemma upper_spaces: "\<forall>c\<in>set w. is_space c \<Longrightarrow> upper w = w"
  by (induction w) (simp_all add: upper_def upper_char_space)

lemma upper_case_variant: "list_all2 case_variant s t \<Longrightarrow> upper t = upper s"
  by (induction rule: list_all2_induct) (simp_all add: upper_def case_variant_upper)

lemma strip_with_pad:
  assumes "\<forall>c\<in>set l. sp c" "\<forall>c\<in>set r. sp c"
  shows "strip_with sp (l @ s @ r) = strip_with sp s"
proof -
  have 1: "dropWhile sp (l @ s @ r) = dropWhile sp (s @ r)"
    using assms(1) by (intro dropWhile_append2) simp
  show ?thesis
  proof (cases "\<forall>c\<in>set s. sp c")
    case True
    then have "dropWhile sp (s @ r) = []" "dropWhile sp s = []"
      unfolding dropWhile_eq_Nil_conv using assms(2) by auto
    then show ?thesis by (simp only: strip_with_def 1)
  next
    case False
    then obtain x where "x \<in> set s" "\<not> sp x" by blast
    then have "dropWhile sp (s @ r) = dropWhile sp s @ r"
      by (rule dropWhile_append1)
    moreover have "dropWhile sp (rev r @ rev (dropWhile sp s)) = dropWhile sp (rev (dropWhile sp s))"
      using assms(2) by (intro dropWhile_append2) simp
    ultimately show ?thesis by (simp only: strip_with_def 1 rev_append)
  qed
qed

lemma strip_with_decomp:
  "dropWhile sp s = strip_with sp s @ rev (takeWhile sp (rev (dropWhile sp s)))"
proof -
  have "rev (dropWhile sp s) = takeWhile sp (rev (dropWhile sp s)) @ dropWhile sp (rev (dropWhile sp s))"
    by simp
  then have "rev (rev (dropWhile sp s)) =
      rev (takeWhile sp (rev (dropWhile sp s)) @ dropWhile sp (rev (dropWhile sp s)))"
    by (rule arg_cong)
  then show ?thesis by (simp only: strip_with_def rev_rev_ident rev_append)
qed

lemma strip_with_hd:
  assumes "strip_with sp s \<noteq> []"
  shows "hd (strip_with sp s) = hd (dropWhile sp s) \<and> \<not> sp (hd (strip_with sp s))"
proof -
  have "hd (dropWhile sp s) = hd (strip_with sp s)"
    using strip_with_decomp [of sp s] assms by (metis hd_append2)
  moreover have "dropWhile sp s \<noteq> []"
    using strip_with_decomp [of sp s] assms by (metis append_is_Nil_conv)
  then have "\<not> sp (hd (dropWhile sp s))" by (rule hd_dropWhile)
  ultimately show ?thesis by simp
qed

lemma is_space_upper_char: "is_space (upper_char c) \<longleftrightarrow> is_space c"
proof (cases "upper_char c = c")
  case True
  then show ?thesis by simp
next
  case False
  with upper_char_cases [of c]
  have u: "upper_char c \<in> set (''ABCDEFGHIJKLMNOPQRSTUVWXYZ'' @ latin1_upper)"
    by simp
  then have "\<not> is_space (upper_char c)"
    by (simp add: latin1_upper_def) (elim disjE; simp add: is_space_def is_parser_space_def)
  moreover have "\<not> is_space c"
    using False upper_char_space [of c] by blast
  ultimately show ?thesis by simp
qed

lemma dropWhile_space_upper: "dropWhile is_space (upper s) = upper (dropWhile is_space s)"
  by (induction s) (simp_all add: upper_def is_space_upper_char)

lemma upper_char_minus: "upper_char c = CHR ''-'' \<Longrightarrow> c = CHR ''-''"
  using upper_char_cases [of c] by (auto simp: latin1_upper_def)

lemma stripped_head:
  assumes "\<not> leading_minus s" "strip (upper s) = c # cs"
  shows "c \<noteq> CHR ''-'' \<and> \<not> is_space c"
proof -
  have ne: "strip_with is_space (upper s) \<noteq> []" using assms(2) by (simp add: strip_def)
  from strip_with_hd [OF ne] assms(2)
  have h: "hd (dropWhile is_space (upper s)) = c" and sp: "\<not> is_space c"
    by (auto simp: strip_def)
  have "dropWhile is_space (upper s) \<noteq> []"
    using strip_with_decomp [of is_space "upper s"] ne by (metis append_is_Nil_conv)
  then obtain d ds where d: "dropWhile is_space s = d # ds"
    unfolding dropWhile_space_upper by (cases "dropWhile is_space s") (auto simp: upper_def)
  have "dropWhile is_space (upper s) = upper (d # ds)"
    by (simp only: dropWhile_space_upper d)
  with h have "c = upper_char d" by (simp add: upper_def)
  moreover have "d \<noteq> CHR ''-''" using assms(1) d by (simp add: leading_minus_def)
  ultimately show ?thesis using sp upper_char_minus [of d] by auto
qed

lemma is_parser_space_imp: "is_parser_space c \<Longrightarrow> is_space c"
  by (simp add: is_space_def)

lemma strip_underscores_hd:
  "strip_underscores (CHR 0x00) (c # cs) = Some t \<Longrightarrow> \<exists>t'. t = c # t'"
  by (auto simp: is_digit_def split: if_splits)

lemma float_of_string_head_nonneg:
  assumes "float_of_string t = Inr (Finite q)"
    and "t = [] \<or> (hd t \<noteq> CHR ''-'' \<and> \<not> is_parser_space (hd t))"
  shows "0 \<le> q"
proof -
  from assms(1) obtain u neg body p where
    u: "strip_underscores (CHR 0x00) (strip_with is_parser_space t) = Some u"
    and ts: "take_sign u = (neg, body)"
    and pd: "parse_decimal body = Some p"
    and tf: "to_float neg p = Finite q"
    by (auto simp: float_of_string_def Let_def split: option.splits prod.splits if_splits)
  have "\<not> neg"
  proof (cases "strip_with is_parser_space t")
    case Nil
    with u have "u = []" by simp
    with ts show ?thesis by simp
  next
    case (Cons c cs)
    then have ne: "strip_with is_parser_space t \<noteq> []" by simp
    then have "t \<noteq> []" by (auto simp: strip_with_def)
    with assms(2) have t: "hd t \<noteq> CHR ''-''" "\<not> is_parser_space (hd t)" by simp_all
    with \<open>t \<noteq> []\<close> have "dropWhile is_parser_space t = t" by (cases t) auto
    with strip_with_hd [OF ne] Cons t have "c \<noteq> CHR ''-''" by simp
    moreover from u Cons strip_underscores_hd obtain t' where "u = c # t'" by metis
    ultimately show ?thesis using ts by (auto split: if_splits)
  qed
  with to_float_Finite [OF tf] have "q = round_double p" by simp
  with round_double_nonneg [OF parse_decimal_nonneg [OF pd]] show ?thesis by simp
qed

lemma scaled_int_head_nonneg:
  assumes "scaled_int t k = Inr n"
    and "t = [] \<or> (hd t \<noteq> CHR ''-'' \<and> \<not> is_parser_space (hd t))"
  shows "0 \<le> n"
proof -
  from assms(1) obtain x where x: "float_of_string t = Inr x"
    and n: "int_of_float (((\<lambda>y. float_times y 1024) ^^ k) x) = Inr n"
    by (auto simp: scaled_int_def split: sum.splits)
  from n obtain r where r: "((\<lambda>y. float_times y 1024) ^^ k) x = Finite r"
    by (cases "((\<lambda>y. float_times y 1024) ^^ k) x") auto
  have "0 \<le> r"
    by (rule scaled_nonneg [OF r]) (use x assms(2) float_of_string_head_nonneg in blast)
  with n r show ?thesis by auto
qed

lemma int_of_string_head_nonneg:
  assumes "int_of_string t = Inr n"
    and "t = [] \<or> (hd t \<noteq> CHR ''-'' \<and> \<not> is_parser_space (hd t))"
  shows "0 \<le> n"
proof -
  obtain neg u where ts: "take_sign (dropWhile is_parser_space t) = (neg, u)"
    by (cases "take_sign (dropWhile is_parser_space t)")
  have "dropWhile is_parser_space t = t" using assms(2) by (cases t) auto
  with ts assms(2) have "\<not> neg" by (cases t) (auto split: if_splits)
  with assms(1) ts show ?thesis
    by (auto simp: int_of_string_def Let_def digits_value_nonneg split: if_splits)
qed

lemma endswith_last: "endswith s suffix \<Longrightarrow> suffix \<noteq> [] \<Longrightarrow> last s = last suffix"
proof -
  assume a: "endswith s suffix" "suffix \<noteq> []"
  then have "s = take (length s - length suffix) s @ suffix"
    by (metis append_take_drop_id endswith_def)
  then have "last s = last (take (length s - length suffix) s @ suffix)" by simp
  then show ?thesis using a(2) by simp
qed

lemma endswith_append: "length suffix = length t \<Longrightarrow> endswith (s @ t) suffix \<longleftrightarrow> t = suffix"
  by (auto simp: endswith_def)

lemma drop_last2_append: "length t = 2 \<Longrightarrow> drop_last2 (s @ t) = s"
  by (simp add: drop_last2_def)

lemma strip_underscores_none: 
  "CHR ''_'' \<notin> set s \<Longrightarrow> prev \<noteq> CHR ''_'' \<Longrightarrow> strip_underscores prev s = Some s"
  by (induction s arbitrary: prev) auto

lemma literal_chars:
  assumes "list_all is_digit ip" "list_all is_digit fp" "c \<in> set (ip @ CHR ''.'' # fp)"
  shows "\<not> is_space c \<and> \<not> is_parser_space c \<and> upper_char c = c \<and> c \<noteq> CHR ''_''
       \<and> c \<noteq> CHR ''-'' \<and> c \<noteq> CHR ''+'' \<and> c \<noteq> CHR ''B'' \<and> c \<noteq> CHR ''I'' \<and> c \<noteq> CHR ''N''"
proof (cases "c = CHR ''.''")
  case True
  then show ?thesis by (simp add: is_space_def is_parser_space_def upper_char_def latin1_lower_def latin1_upper_def)
next
  case False
  with assms have "is_digit c" by (auto simp: list_all_iff)
  then show ?thesis
    using digit_not_space [of c] digit_not_special [of c] upper_char_digit [of c] by simp
qed

lemma literal_upper:
  assumes "list_all is_digit ip" "list_all is_digit fp"
  shows "upper (ip @ CHR ''.'' # fp) = ip @ CHR ''.'' # fp"
  unfolding upper_def using literal_chars [OF assms] by (intro map_idI) blast

lemma literal_split:
  assumes "list_all is_digit ip"
  shows "takeWhile is_digit (ip @ CHR ''.'' # fp) = ip"
    and "dropWhile is_digit (ip @ CHR ''.'' # fp) = CHR ''.'' # fp"
    and "takeWhile (\<lambda>c. is_digit c \<or> c = CHR ''_'') (ip @ CHR ''.'' # fp) = ip"
    and "dropWhile (\<lambda>c. is_digit c \<or> c = CHR ''_'') (ip @ CHR ''.'' # fp) = CHR ''.'' # fp"
proof -
  have d: "\<not> is_digit (CHR ''.'')" by (simp add: is_digit_def)
  have a: "\<And>c. c \<in> set ip \<Longrightarrow> is_digit c" using assms by (simp add: list_all_iff)
  show "takeWhile is_digit (ip @ CHR ''.'' # fp) = ip"
    using a d by (simp add: takeWhile_append2)
  show "dropWhile is_digit (ip @ CHR ''.'' # fp) = CHR ''.'' # fp"
    using a d by (simp add: dropWhile_append2)
  show "takeWhile (\<lambda>c. is_digit c \<or> c = CHR ''_'') (ip @ CHR ''.'' # fp) = ip"
    using a d by (simp add: takeWhile_append2)
  show "dropWhile (\<lambda>c. is_digit c \<or> c = CHR ''_'') (ip @ CHR ''.'' # fp) = CHR ''.'' # fp"
    using a d by (simp add: dropWhile_append2)
qed

lemma literal_float:
  assumes "list_all is_digit ip" "list_all is_digit fp" "ip \<noteq> [] \<or> fp \<noteq> []"
  shows "float_of_string (ip @ CHR ''.'' # fp) = Inr (to_float False (decimal_value ip fp))"
proof -
  let ?lit = "ip @ CHR ''.'' # fp"
  note C = literal_chars [OF assms(1,2)]
  have ne: "?lit \<noteq> []" by simp
  then have h: "hd ?lit \<in> set ?lit" and l: "last ?lit \<in> set ?lit"
    by (rule hd_in_set, rule last_in_set)
  have 1: "strip_with is_parser_space ?lit = ?lit"
    using C [OF h] C [OF l] by (intro strip_with_id ne) blast+
  have "CHR ''_'' \<notin> set ?lit" using C by blast
  then have 2: "strip_underscores (CHR 0x00) ?lit = Some ?lit"
    by (rule strip_underscores_none) simp
  have 3: "take_sign ?lit = (False, ?lit)"
  proof (cases ?lit)
    case Nil
    with ne show ?thesis by simp
  next
    case (Cons c cs)
    with C [OF h] have "c \<noteq> CHR ''-''" "c \<noteq> CHR ''+''" by simp_all
    then show ?thesis by (simp add: Cons)
  qed
  have 4: "?lit \<noteq> ''INF''" "?lit \<noteq> ''INFINITY''" "?lit \<noteq> ''NAN''"
    using C by (metis list.set_intros(1))+
  have f: "takeWhile is_digit fp = fp" "dropWhile is_digit fp = []"
    using assms(2) by (simp_all add: list_all_iff takeWhile_eq_all_conv dropWhile_eq_Nil_conv)
  have 5: "parse_decimal ?lit = Some (decimal_value ip fp)"
    using assms(3)
    by (simp add: parse_decimal_def literal_split [OF assms(1)] f parse_exponent_def
        decimal_value_def Let_def)
  show ?thesis
    unfolding float_of_string_def 1 2 using 4
    by (simp add: 3 5 literal_upper [OF assms(1,2)] del: append_eq_Cons_conv)
qed

lemma literal_int:
  assumes "list_all is_digit ip" "list_all is_digit fp"
  shows "int_of_string (ip @ CHR ''.'' # fp) = Inl ValueError"
proof -
  let ?lit = "ip @ CHR ''.'' # fp"
  note C = literal_chars [OF assms(1,2)]
  have ne: "?lit \<noteq> []" by simp
  then have h: "hd ?lit \<in> set ?lit" by (rule hd_in_set)
  have 1: "dropWhile is_parser_space ?lit = ?lit"
  proof (cases ?lit)
    case Nil
    with ne show ?thesis by simp
  next
    case (Cons c cs)
    with C [OF h] have "\<not> is_parser_space c" by simp
    then show ?thesis by (simp add: Cons)
  qed
  have 3: "take_sign ?lit = (False, ?lit)"
  proof (cases ?lit)
    case Nil
    with ne show ?thesis by simp
  next
    case (Cons c cs)
    with C [OF h] have "c \<noteq> CHR ''-''" "c \<noteq> CHR ''+''" by simp_all
    then show ?thesis by (simp add: Cons)
  qed
  have 4: "\<not> is_parser_space (CHR ''.'')" by (simp add: is_parser_space_def)
  show ?thesis
    unfolding int_of_string_def 1 3
    by (simp add: literal_split [OF assms(1)] 4 Let_def)
qed

lemma parse_size_literal:
  assumes "list_all is_digit ip" "list_all is_digit fp"
  shows "parse_size (ip @ CHR ''.'' # fp) = Inl ValueError"
proof -
  let ?lit = "ip @ CHR ''.'' # fp"
  note C = literal_chars [OF assms(1,2)]
  have ne: "?lit \<noteq> []" by simp
  then have h: "hd ?lit \<in> set ?lit" and l: "last ?lit \<in> set ?lit"
    by (rule hd_in_set, rule last_in_set)
  have 1: "strip (upper ?lit) = ?lit"
    unfolding literal_upper [OF assms] strip_def
    using C [OF h] C [OF l] by (intro strip_with_id ne) blast+
  have 2: "\<not> endswith ?lit ''MB''" "\<not> endswith ?lit ''GB''" "\<not> endswith ?lit ''KB''"
    using C [OF l] by (auto dest: endswith_last)
  show ?thesis
    unfolding parse_size_def 1 Let_def using 2 literal_int [OF assms] by simp
qed

lemma parse_size_literal_suffix:
  assumes "list_all is_digit ip" "list_all is_digit fp" "ip \<noteq> [] \<or> fp \<noteq> []"
    and "(suffix, k) \<in> {(''KB'', 1), (''MB'', 2), (''GB'', 3)}"
  shows "parse_size ((ip @ CHR ''.'' # fp) @ suffix) = int_of_float (scaled_product ip fp k)"
proof -
  let ?lit = "ip @ CHR ''.'' # fp"
  note C = literal_chars [OF assms(1,2)]
  have ne: "?lit @ suffix \<noteq> []" by simp
  have "hd ?lit \<in> set ?lit" by (rule hd_in_set) simp
  from C [OF this] have "\<not> is_space (hd ?lit)" by blast
  moreover have "hd (?lit @ suffix) = hd ?lit" by (rule hd_append2) simp
  ultimately have h: "\<not> is_space (hd (?lit @ suffix))" by simp
  have s: "suffix = ''KB'' \<or> suffix = ''MB'' \<or> suffix = ''GB''" using assms(4) by auto
  then have us: "upper suffix = suffix" "length suffix = 2" "last suffix = CHR ''B''"
    "suffix \<noteq> []"
    by (auto simp: upper_def upper_char_def latin1_lower_def latin1_upper_def)
  have "last (?lit @ suffix) = CHR ''B''" using us(3,4) by simp
  then have l: "\<not> is_space (last (?lit @ suffix))"
    by (simp add: is_space_def is_parser_space_def)
  have "upper (?lit @ suffix) = upper ?lit @ upper suffix" by (rule upper_append)
  then have "upper (?lit @ suffix) = ?lit @ suffix"
    by (simp only: literal_upper [OF assms(1,2)] us(1))
  moreover have "strip (?lit @ suffix) = ?lit @ suffix"
    unfolding strip_def using ne h l by (rule strip_with_id)
  ultimately have 1: "strip (upper (?lit @ suffix)) = ?lit @ suffix" by (simp only:)
  have 2: "endswith (?lit @ suffix) ''MB'' \<longleftrightarrow> suffix = ''MB''"
    "endswith (?lit @ suffix) ''GB'' \<longleftrightarrow> suffix = ''GB''"
    "endswith (?lit @ suffix) ''KB'' \<longleftrightarrow> suffix = ''KB''"
    by (rule endswith_append, simp add: us(2))+
  have 3: "drop_last2 (?lit @ suffix) = ?lit"
    using us(2) by (rule drop_last2_append)
  have 4: "scaled_int ?lit k = int_of_float (scaled_product ip fp k)"
    by (simp add: scaled_int_def literal_float [OF assms(1-3)] scaled_product_def)
  have "parse_size (?lit @ suffix) =
      (if suffix = ''MB'' then scaled_int ?lit 2
       else if suffix = ''GB'' then scaled_int ?lit 3
       else if suffix = ''KB'' then scaled_int ?lit 1
       else int_of_string (?lit @ suffix))"
    by (simp only: parse_size_def 1 Let_def 2 3)
  also have "\<dots> = scaled_int ?lit k"
    using assms(4) by auto
  finally show ?thesis by (simp only: 4)
qed

lemma scaled_product_nonneg: "scaled_product ip fp k = Finite p \<Longrightarrow> 0 \<le> p"
proof (rule scaled_nonneg)
  show "((\<lambda>y. float_times y 1024) ^^ k) (to_float False (decimal_value ip fp)) = Finite p"
    if "scaled_product ip fp k = Finite p"
    using that by (simp add: scaled_product_def)
  fix q assume "to_float False (decimal_value ip fp) = Finite q"
  from to_float_Finite [OF this] have "q = round_double (decimal_value ip fp)" by simp
  moreover have "0 \<le> decimal_value ip fp"
    using pow10_pos [of "- int (length fp)"] digits_value_nonneg [of "ip @ fp"]
    by (simp add: decimal_value_def)
  ultimately show "0 \<le> q" using round_double_nonneg by simp
qed

lemma float_times_not_NaN: "x \<noteq> NaN \<Longrightarrow> float_times x k \<noteq> NaN"
  by (cases x) (simp_all add: to_float_def Let_def)

lemma scaled_product_not_NaN: "scaled_product ip fp k \<noteq> NaN"
proof -
  have "((\<lambda>y. float_times y 1024) ^^ k) x \<noteq> NaN" if "x \<noteq> NaN" for x
    using that by (induction k) (simp_all add: float_times_not_NaN)
  then show ?thesis by (simp add: scaled_product_def to_float_def Let_def)
qed

lemma foldl_digits_lower:
  "0 \<le> acc \<Longrightarrow> acc * 10 ^ length ds \<le> foldl (\<lambda>acc c. 10 * acc + digit_value c) acc ds"
proof (induction ds arbitrary: acc)
  case Nil
  then show ?case by simp
next
  case (Cons c ds)
  have "0 \<le> 10 * acc + digit_value c" using Cons.prems digit_value_nonneg [of c] by simp
  from Cons.IH [OF this]
  have "(10 * acc + digit_value c) * 10 ^ length ds
      \<le> foldl (\<lambda>acc c. 10 * acc + digit_value c) acc (c # ds)" by simp
  moreover have "acc * 10 ^ length (c # ds) \<le> (10 * acc + digit_value c) * 10 ^ length ds"
    using digit_value_nonneg [of c] by (simp add: algebra_simps)
  ultimately show ?case by linarith
qed

lemma pow2_less: "a < b \<Longrightarrow> pow2 a < pow2 b"
proof -
  assume "a < b"
  then have "1 \<le> b - a" by simp
  then have "(2::rat) ^ 1 \<le> 2 ^ nat (b - a)"
    by (intro power_increasing) simp_all
  then have "2 \<le> pow2 (b - a)" using \<open>a < b\<close> by (simp add: pow2_def)
  moreover have "pow2 b = pow2 (b - a) * pow2 a" using pow2_add [of "b - a" a] by simp
  ultimately show ?thesis using pow2_pos [of a] by simp
qed

lemma binary_exponent_pow2: "binary_exponent (pow2 k) = k"
proof -
  note B = binary_exponent_bounds [OF pow2_pos [of k]]
  have "\<not> k < binary_exponent (pow2 k)"
    using B pow2_less [of k "binary_exponent (pow2 k)"] by auto
  moreover have "\<not> binary_exponent (pow2 k) + 1 \<le> k"
    using B pow2_mono [of "binary_exponent (pow2 k) + 1" k] by auto
  ultimately show ?thesis by simp
qed

lemma round_double_pow2:
  assumes "- 1022 \<le> k"
  shows "round_double (pow2 k) = pow2 k"
proof -
  have e: "max (binary_exponent (pow2 k)) (- 1022) = k"
    using assms by (simp add: binary_exponent_pow2)
  have "pow2 k / pow2 (k - 52) = of_int (2 ^ 52)"
    using pow2_diff [of k "k - 52"] by (simp add: pow2_def)
  then have "round_half_even (pow2 k / pow2 (k - 52)) = 2 ^ 52"
    by (simp only: round_half_even_of_int)
  moreover have "of_int (2 ^ 52) * pow2 (k - 52) = pow2 k"
  proof -
    have "pow2 k = pow2 52 * pow2 (k - 52)" using pow2_add [of 52 "k - 52"] by simp
    then show ?thesis by (simp add: pow2_def)
  qed
  ultimately show ?thesis
    using pow2_pos [of k] by (simp add: round_double_def e Let_def)
qed

lemma to_float_overflow:
  assumes "pow2 1024 \<le> q"
  shows "to_float neg q = Infinity neg"
proof -
  have "round_double (pow2 1024) \<le> round_double q"
    using assms pow2_pos [of 1024] by (intro round_double_mono) simp_all
  then have "pow2 1024 \<le> round_double q" by (simp add: round_double_pow2)
  moreover have "pow2 1024 = 2 ^ 1024" by (simp add: pow2_def)
  ultimately have "2 ^ 1024 \<le> round_double q" by (simp only:)
  then show ?thesis by (simp only: to_float_def Let_def if_True)
qed

text \<open>
  White space outside ASCII is stripped like a space: a no-break space before
  \<^verbatim>\<open>-5\<close> leaves the literal \<^verbatim>\<open>-5\<close>, and one between the number and the suffix is
  skipped by \<^verbatim>\<open>float\<close>.
\<close>

lemma parse_size_no_break_space:
  "parse_size (CHR 0xA0 # ''-5'') = Inr (- 5)
   \<and> leading_minus (CHR 0xA0 # ''-5'')
   \<and> parse_size (''100'' @ [CHR 0xA0] @ ''MB'') = Inr 104857600"
  by code_simp

section \<open>Properties of the size planner\<close>

text \<open>
  Claim C5.  Whenever \<^verbatim>\<open>calculate_dimensions\<close> returns a plan for a target byte size
  (at the default 16 bits per pixel), the width and the height both lie in the closed
  interval from 256 to 8192.
\<close>

theorem calculate_dimensions_clamped:
  "calculate_dimensions target 16 = Inr (width, height) \<Longrightarrow>
     256 \<le> width \<and> width \<le> 8192 \<and> 256 \<le> height \<and> height \<le> 8192"
  by (auto simp: calculate_dimensions_def split: sum.splits prod.splits)

theorem calculate_dimensions_clamped_witness:
  "calculate_dimensions 104857600 16 = Inr (7240, 7240)
   \<and> (256::int) \<le> 7240 \<and> (7240::int) \<le> 8192"
proof -
  have h: "calculate_dimensions 104857600 16 = Inr (7240, 7240)" by code_simp
  from calculate_dimensions_clamped [OF h] h show ?thesis by simp
qed

text \<open>
  Claim C7.  Within one aspect-ratio tier the pixel count before clamping (width times
  height) does not decrease when the target byte size grows: of two targets in the same
  tier for which the tier computation returns, the larger has at least the pixel count
  of the smaller.
\<close>

theorem pixel_count_monotone_within_tier:
  assumes "t1 \<le> t2"
    and "aspect_tier t1 16 = aspect_tier t2 16"
    and "tier_dimensions t1 16 = Inr (w1, h1)"
    and "tier_dimensions t2 16 = Inr (w2, h2)"
  shows "w1 * h1 \<le> w2 * h2"
proof -
  define p1 where "p1 = (t1 - 10240) div 2"
  define p2 where "p2 = (t2 - 10240) div 2"
  have le: "p1 \<le> p2" using assms(1) by (simp add: p1_def p2_def zdiv_mono1)
  have sq: "s1 * s1 \<le> s2 * s2"
    if "int_np_sqrt p1 = Inr s1" "int_np_sqrt p2 = Inr s2" for s1 s2
    using int_np_sqrt_mono [OF that le] by (simp add: mult_mono)
  have lin: "k * (p1 div k) \<le> k * (p2 div k)" if "0 < k" for k :: int
    using le that by (simp add: zdiv_mono1)
  consider (s) "aspect_tier t1 16 = Small" | (m) "aspect_tier t1 16 = Medium"
    | (l) "aspect_tier t1 16 = Large" | (v) "aspect_tier t1 16 = Very_large"
    by (cases "aspect_tier t1 16") auto
  then show ?thesis
  proof cases
    case s
    with assms(2) have "p1 < 262144" "p2 < 262144"
      by (auto simp: aspect_tier_def p1_def p2_def Let_def split: if_splits)
    with assms(3,4) show ?thesis
      by (auto simp: tier_dimensions_def Let_def p1_def [symmetric] p2_def [symmetric]
          split: sum.splits dest: sq)
  next
    case m
    with assms(2) have "\<not> p1 < 262144" "p1 < 1048576" "\<not> p2 < 262144" "p2 < 1048576"
      by (auto simp: aspect_tier_def p1_def p2_def Let_def split: if_splits)
    with assms(3,4) lin [of 1024] show ?thesis
      by (auto simp: tier_dimensions_def Let_def p1_def [symmetric] p2_def [symmetric])
  next
    case l
    with assms(2) have "\<not> p1 < 1048576" "p1 < 4194304" "\<not> p2 < 1048576" "p2 < 4194304"
      by (auto simp: aspect_tier_def p1_def p2_def Let_def split: if_splits)
    with assms(3,4) lin [of 2048] show ?thesis
      by (auto simp: tier_dimensions_def Let_def p1_def [symmetric] p2_def [symmetric])
  next
    case v
    with assms(2) have "\<not> p1 < 4194304" "\<not> p2 < 4194304"
      by (auto simp: aspect_tier_def p1_def p2_def Let_def split: if_splits)
    with assms(3,4) show ?thesis
      by (auto simp: tier_dimensions_def Let_def p1_def [symmetric] p2_def [symmetric]
          split: sum.splits dest: sq)
  qed
qed

theorem pixel_count_monotone_within_tier_witness:
  "(1048576::int) \<le> 1050624
   \<and> aspect_tier 1048576 16 = aspect_tier 1050624 16
   \<and> tier_dimensions 1048576 16 = Inr (1024, 507)
   \<and> tier_dimensions 1050624 16 = Inr (1024, 508)
   \<and> (1024::int) * 507 \<le> 1024 * 508"
proof -
  have a: "(1048576::int) \<le> 1050624" by simp
  have b: "aspect_tier 1048576 16 = aspect_tier 1050624 16" by code_simp
  have c: "tier_dimensions 1048576 16 = Inr (1024, 507)" by code_simp
  have d: "tier_dimensions 1050624 16 = Inr (1024, 508)" by code_simp
  from pixel_count_monotone_within_tier [OF a b c d] a b c d show ?thesis by simp
qed

text \<open>
  Claim C9, amended.  For every target below 10240 bytes \<^verbatim>\<open>calculate_dimensions\<close> raises
  an error and returns no plan: a ValueError when the target is at least
  \<open>10240 - 2\<^sup>6\<^sup>4\<close> (the square root of the negative pixel count is NaN, which \<^verbatim>\<open>int\<close>
  refuses), and a TypeError from the square root for a smaller target, whose pixel
  count lies below \<open>-2\<^sup>6\<^sup>3\<close>.  It returns a plan exactly when the target is at least 10240
  and below \<open>2\<^sup>6\<^sup>5 + 10240\<close>; from there on the pixel count is \<open>2\<^sup>6\<^sup>4\<close> or more and the square
  root raises a TypeError.
\<close>

theorem calculate_dimensions_returns_iff:
  "(10240 - 2 ^ 64 \<le> t \<and> t < 10240 \<longrightarrow> calculate_dimensions t 16 = Inl ValueError)
   \<and> (t < 10240 - 2 ^ 64 \<longrightarrow> calculate_dimensions t 16 = Inl TypeError)
   \<and> ((\<exists>plan. calculate_dimensions t 16 = Inr plan) \<longleftrightarrow> 10240 \<le> t \<and> t < 2 ^ 65 + 10240)
   \<and> (2 ^ 65 + 10240 \<le> t \<longrightarrow> calculate_dimensions t 16 = Inl TypeError)"
proof -
  define p where "p = (t - 10240) div 2"
  have p: "(p < 0 \<longleftrightarrow> t < 10240) \<and> (2 ^ 64 \<le> p \<longleftrightarrow> 2 ^ 65 + 10240 \<le> t)
      \<and> (p < - (2 ^ 63) \<longleftrightarrow> t < 10240 - 2 ^ 64)"
    by (auto simp: p_def)
  have cd: "calculate_dimensions t 16 =
     (if p < 262144 \<or> \<not> p < 4194304 then
        (case int_np_sqrt p of Inl e \<Rightarrow> Inl e
         | Inr side \<Rightarrow> Inr (max 256 (min 8192 side), max 256 (min 8192 side)))
      else if p < 1048576 then Inr (1024, max 256 (min 8192 (p div 1024)))
      else Inr (2048, max 256 (min 8192 (p div 2048))))"
    by (simp add: calculate_dimensions_def tier_dimensions_def Let_def p_def [symmetric]
        split: sum.splits)
  show ?thesis
    using p unfolding cd int_np_sqrt_cases by auto
qed

theorem calculate_dimensions_returns_iff_witness:
  "(10240::int) - 2 ^ 64 \<le> 10239 \<and> (10239::int) < 10240
   \<and> calculate_dimensions 10239 16 = Inl ValueError
   \<and> - ((2::int) ^ 70) < 10240 - 2 ^ 64
   \<and> calculate_dimensions (- (2 ^ 70)) 16 = Inl TypeError
   \<and> (\<exists>plan. calculate_dimensions 10240 16 = Inr plan)
   \<and> (2::int) ^ 65 + 10240 \<le> 2 ^ 66 \<and> calculate_dimensions (2 ^ 66) 16 = Inl TypeError"
  using calculate_dimensions_returns_iff [of 10239] calculate_dimensions_returns_iff [of 10240]
    calculate_dimensions_returns_iff [of "2 ^ 66"] calculate_dimensions_returns_iff [of "- (2 ^ 70)"]
  by simp

text \<open>
  Claim C9 as stated (a plan for every target of at least 10240 bytes) fails at the
  target \<open>2\<^sup>7\<^sup>0\<close>.
\<close>

theorem calculate_dimensions_huge_target:
  "(10240::int) \<le> 2 ^ 70 \<and> calculate_dimensions (2 ^ 70) 16 = Inl TypeError"
  by code_simp

text \<open>
  Claim C4.  \<^verbatim>\<open>parse_size\<close> returns 104857600 for \<^verbatim>\<open>"100MB"\<close>, 1073741824 for
  \<^verbatim>\<open>"1GB"\<close>, 512000 for \<^verbatim>\<open>"500KB"\<close> and 12345 for \<^verbatim>\<open>"12345"\<close>.
\<close>

theorem parse_size_examples:
  "parse_size ''100MB'' = Inr 104857600
   \<and> parse_size ''1GB'' = Inr 1073741824
   \<and> parse_size ''500KB'' = Inr 512000
   \<and> parse_size ''12345'' = Inr 12345"
proof -
  have a: "parse_size ''100MB'' = Inr 104857600" by code_simp
  have b: "parse_size ''1GB'' = Inr 1073741824" by code_simp
  have c: "parse_size ''500KB'' = Inr 512000" by code_simp
  have d: "parse_size ''12345'' = Inr 12345" by code_simp
  from a b c d show ?thesis by simp
qed

text \<open>
  Claim C3, amended.  For every size string that \<^verbatim>\<open>parse_size\<close> accepts and whose first
  character after leading white space (in the sense of \<^verbatim>\<open>str.strip\<close>) is not a minus
  sign, the returned value is a non-negative integer count of bytes.
\<close>

theorem parse_size_nonnegative:
  assumes "parse_size s = Inr n" and "\<not> leading_minus s"
  shows "0 \<le> n"
proof -
  define u where "u = strip (upper s)"
  have u: "u = [] \<or> (hd u \<noteq> CHR ''-'' \<and> \<not> is_parser_space (hd u))"
  proof (cases u)
    case Nil
    then show ?thesis by simp
  next
    case (Cons c cs)
    with stripped_head [OF assms(2), of c cs] is_parser_space_imp [of c] show ?thesis
      by (auto simp: u_def)
  qed
  have d: "drop_last2 u = [] \<or> (hd (drop_last2 u) \<noteq> CHR ''-'' \<and> \<not> is_parser_space (hd (drop_last2 u)))"
  proof (cases "drop_last2 u = []")
    case True
    then show ?thesis by simp
  next
    case False
    then have "hd (drop_last2 u) = hd u" "u \<noteq> []"
      by (auto simp: drop_last2_def hd_take)
    with u show ?thesis by simp
  qed
  from assms(1) consider k where "scaled_int (drop_last2 u) k = Inr n" | "int_of_string u = Inr n"
    by (auto simp: parse_size_def Let_def u_def [symmetric] split: if_splits)
  then show ?thesis
  proof cases
    case 1
    then show ?thesis using d by (rule scaled_int_head_nonneg)
  next
    case 2
    then show ?thesis using u by (rule int_of_string_head_nonneg)
  qed
qed

theorem parse_size_nonnegative_witness:
  "parse_size ''1e-3KB'' = Inr 1 \<and> \<not> leading_minus ''1e-3KB'' \<and> (0::int) \<le> 1"
proof -
  have a: "parse_size ''1e-3KB'' = Inr 1" by code_simp
  have b: "\<not> leading_minus ''1e-3KB''" by (simp add: leading_minus_def is_space_def is_parser_space_def)
  from parse_size_nonnegative [OF a b] a b show ?thesis by simp
qed

text \<open>
  Claim C3 as stated (a non-negative result for every accepted string) fails for the
  string \<^verbatim>\<open>"-5"\<close>, which is accepted with the result -5.
\<close>

theorem parse_size_negative_literal:
  "parse_size ''-5'' = Inr (- 5) \<and> (- 5 :: int) < 0 \<and> leading_minus ''-5''"
proof -
  have a: "parse_size ''-5'' = Inr (- 5)" by code_simp
  have b: "leading_minus ''-5''" by (simp add: leading_minus_def is_space_def is_parser_space_def)
  from a b show ?thesis by simp
qed

text \<open>
  Claim C6.  \<^verbatim>\<open>parse_size\<close> ignores letter case and surrounding white space: a
  string that differs from \<open>s\<close> only in the case of its letters, with any white space
  before and after it, gives the same result as \<open>s\<close>; so \<^verbatim>\<open>"100mb"\<close>, \<^verbatim>\<open>"100MB"\<close>
  and \<^verbatim>\<open>" 100MB "\<close> all give the same byte count.
\<close>

theorem parse_size_ignores_case_and_padding:
  assumes "list_all2 case_variant s t"
    and "list_all is_space l" and "list_all is_space r"
  shows "parse_size (l @ t @ r) = parse_size s"
proof -
  have l: "\<forall>c\<in>set l. is_space c" and r: "\<forall>c\<in>set r. is_space c"
    using assms(2,3) by (simp_all add: list_all_iff)
  have "upper (l @ t @ r) = l @ upper s @ r"
    using upper_spaces [OF l] upper_spaces [OF r] upper_case_variant [OF assms(1)]
    by (simp add: upper_append)
  then have "strip (upper (l @ t @ r)) = strip (upper s)"
    using strip_with_pad [OF l r] by (simp add: strip_def)
  then show ?thesis by (simp add: parse_size_def)
qed

theorem parse_size_ignores_case_and_padding_witness:
  "list_all2 case_variant ''100MB'' ''100mb''
   \<and> list_all is_space '' ''
   \<and> parse_size '' 100mb '' = parse_size ''100MB''
   \<and> parse_size ''100mb'' = parse_size ''100MB''
   \<and> parse_size '' 100MB '' = parse_size ''100MB''
   \<and> parse_size ''100MB'' = Inr 104857600"
proof -
  have a: "list_all2 case_variant ''100MB'' ''100mb''" by (simp add: case_variant_def)
  have a': "list_all2 case_variant ''100MB'' ''100MB''" by (simp add: case_variant_def)
  have b: "list_all is_space '' ''" by (simp add: is_space_def is_parser_space_def)
  have e: "list_all is_space []" by simp
  have v: "parse_size ''100MB'' = Inr 104857600" by code_simp
  from parse_size_ignores_case_and_padding [OF a b b]
    parse_size_ignores_case_and_padding [OF a e e]
    parse_size_ignores_case_and_padding [OF a' b b] a b v
  show ?thesis by simp
qed

text \<open>
  Claim C10, amended.  A fractional literal (digits around a decimal point) without a
  suffix raises a ValueError.  With the suffix KB, MB or GB it is accepted whenever the
  float product of the literal and the multiplier is finite, and the result is that
  product truncated to an integer (\<^verbatim>\<open>"1.5MB"\<close> gives 1572864); when the product is
  infinite, \<^verbatim>\<open>int\<close> raises an OverflowError.
\<close>

theorem parse_size_fractional:
  assumes "list_all is_digit ip" and "list_all is_digit fp" and "ip \<noteq> [] \<or> fp \<noteq> []"
    and "(suffix, k) \<in> {(''KB'', 1), (''MB'', 2), (''GB'', 3)}"
  shows "parse_size (ip @ ''.'' @ fp) = Inl ValueError
       \<and> (case scaled_product ip fp k of
            Finite p \<Rightarrow> 0 \<le> p \<and> parse_size (ip @ ''.'' @ fp @ suffix) = Inr \<lfloor>p\<rfloor>
          | Infinity neg \<Rightarrow> parse_size (ip @ ''.'' @ fp @ suffix) = Inl OverflowError
          | NaN \<Rightarrow> False)"
proof -
  have e: "ip @ ''.'' @ fp @ suffix = (ip @ CHR ''.'' # fp) @ suffix" by simp
  have a: "parse_size (ip @ ''.'' @ fp) = Inl ValueError"
    using parse_size_literal [OF assms(1,2)] by simp
  have b: "parse_size (ip @ ''.'' @ fp @ suffix) = int_of_float (scaled_product ip fp k)"
    unfolding e by (rule parse_size_literal_suffix [OF assms])
  show ?thesis
  proof (cases "scaled_product ip fp k")
    case (Finite p)
    with scaled_product_nonneg [OF Finite] a b show ?thesis by simp
  next
    case (Infinity neg)
    with a b show ?thesis by simp
  next
    case NaN
    with scaled_product_not_NaN show ?thesis by blast
  qed
qed

theorem parse_size_fractional_witness:
  "list_all is_digit ''1'' \<and> list_all is_digit ''5''
   \<and> parse_size ''1.5'' = Inl ValueError \<and> parse_size ''1.5MB'' = Inr 1572864"
proof -
  have d: "list_all is_digit ''1''" "list_all is_digit ''5''" by (simp_all add: is_digit_def)
  have s: "scaled_product ''1'' ''5'' 2 = Finite 1572864" by code_simp
  have m: "(''MB'', 2) \<in> {(''KB'', 1), (''MB'', 2), (''GB'', 3::nat)}" by simp
  from parse_size_fractional [OF d _ m] d show ?thesis by (simp add: s)
qed

text \<open>
  Claim C10 as stated (every fractional literal with a suffix is accepted) fails for the
  literal of a one, 309 zeros and \<^verbatim>\<open>.5\<close> with the suffix MB: the float is infinite.
\<close>

theorem parse_size_fractional_overflow:
  "parse_size (''1'' @ replicate 309 (CHR ''0'') @ ''.5MB'') = Inl OverflowError"
proof -
  let ?ip = "''1'' @ replicate 309 (CHR ''0'')"
  have d: "list_all is_digit ?ip" "list_all is_digit ''5''"
    by (simp_all add: is_digit_def list_all_iff)
  have m: "(''MB'', 2) \<in> {(''KB'', 1), (''MB'', 2), (''GB'', 3::nat)}" by simp
  have "1 * 10 ^ length (replicate 309 (CHR ''0'') @ ''5'')
      \<le> foldl (\<lambda>acc c. 10 * acc + digit_value c) 1 (replicate 309 (CHR ''0'') @ ''5'')"
    by (rule foldl_digits_lower) simp
  moreover have "digit_value (CHR ''1'') = 1" by (simp add: digit_value_def)
  ultimately have "10 ^ 310 \<le> digits_value (?ip @ ''5'')"
    by (simp add: digits_value_def)
  then have "(of_int (10 ^ 310) :: rat) \<le> of_int (digits_value (?ip @ ''5''))"
    by (simp only: of_int_le_iff)
  then have "(10::rat) ^ 309 \<le> decimal_value ?ip ''5''"
    by (simp add: decimal_value_def pow10_def)
  moreover have "pow2 1024 \<le> 10 ^ 309" by (simp add: pow2_def)
  ultimately have "pow2 1024 \<le> decimal_value ?ip ''5''" by (rule order_trans [rotated])
  then have "to_float False (decimal_value ?ip ''5'') = Infinity False"
    by (rule to_float_overflow)
  then have "scaled_product ?ip ''5'' 2 = Infinity False"
    by (simp add: scaled_product_def numeral_2_eq_2)
  moreover have "parse_size ((?ip @ CHR ''.'' # ''5'') @ ''MB'') = int_of_float (scaled_product ?ip ''5'' 2)"
    by (rule parse_size_literal_suffix [OF d _ m]) simp
  ultimately show ?thesis by simp
qed

section \<open>Properties of the raster synthesizer\<close>

lemma clip_full_range: "clip v 0 65535 = v"
proof -
  have "unat v < 2 ^ 16" using unsigned_less [of v, where ?'a = nat] by simp
  then have "v \<le> 65535" by (simp add: word_le_nat_alt)
  then show ?thesis by (simp add: clip_def min_def max_def)
qed

lemma generate_realistic_medical_image_CT_lung:
  "lung_left width height x y \<or> lung_right width height x y \<Longrightarrow>
     generate_realistic_medical_image_CT width height d x y = astype_uint16 (lung_draw d)"
  by (simp add: generate_realistic_medical_image_CT_def ct_overlays_def clip_full_range Let_def)

text \<open>
  Claim C1.  The lung overlay stores a draw from the normal distribution around -1000
  through \<^verbatim>\<open>.astype(np.uint16)\<close>, and the clip to the range from 0 to 65535 comes after
  that conversion, where it changes nothing.  At the pixel \<open>(90, 128)\<close> of a raster of
  256 by 256, which lies in the left lung, the draw -1000 ends as the sample 64536, at
  the high end of the range and not near 0.
\<close>

theorem lung_sample_wraps:
  "lung_left 256 256 90 128
   \<and> generate_realistic_medical_image_CT 256 256 mean_draws 90 128 = 64536
   \<and> unat (generate_realistic_medical_image_CT 256 256 mean_draws 90 128) = 64536"
proof -
  have l: "lung_left 256 256 90 128" by (simp add: lung_left_def power2_eq_square)
  have "astype_uint16 (lung_draw mean_draws) = 64536"
    by (simp add: astype_uint16_def mean_draws_def)
  with l generate_realistic_medical_image_CT_lung [of 256 256 90 128 mean_draws] show ?thesis by simp
qed

section \<open>Properties of the container writer\<close>

lemma inj_sample_uids: "inj sample_uids"
proof (rule injI)
  fix a b assume "sample_uids a = sample_uids b"
  then have "length (sample_uids a) = length (sample_uids b)" by simp
  then show "a = b" by (simp add: sample_uids_def)
qed

text \<open>
  Claim C2, amended.  In every file the storage-class identifier is the fixed constant
  of the modality (the CT class for \<^verbatim>\<open>'CT'\<close>, the MR class otherwise), the same in
  every invocation.  The instance, implementation, study and series identifiers are
  four successive results of \<^verbatim>\<open>generate_uid\<close>: with a generator that never repeats,
  they differ from each other and from those of a later invocation.
\<close>

theorem create_dicom_file_identifiers:
  assumes "inj gen"
    and "create_dicom_file gen n target1 modality1 patient1 = Inr (ds1, n1)"
    and "create_dicom_file gen n1 target2 modality2 patient2 = Inr (ds2, n2)"
  shows "MediaStorageSOPClassUID (meta ds1) =
           (if modality1 = ''CT'' then CTImageStorage else MRImageStorage)
       \<and> MediaStorageSOPClassUID (meta ds2) =
           (if modality2 = ''CT'' then CTImageStorage else MRImageStorage)
       \<and> generated_uids ds1 = map gen [n, n + 1, n + 2, n + 3]
       \<and> generated_uids ds2 = map gen [n1, n1 + 1, n1 + 2, n1 + 3]
       \<and> distinct (generated_uids ds1 @ generated_uids ds2)"
proof -
  from assms(2) have 1: "n1 = n + 4"
    "MediaStorageSOPClassUID (meta ds1) =
       (if modality1 = ''CT'' then CTImageStorage else MRImageStorage)"
    "generated_uids ds1 = map gen [n, n + 1, n + 2, n + 3]"
    by (auto simp: create_dicom_file_def generated_uids_def Let_def split: sum.splits prod.splits)
  from assms(3) have 2:
    "MediaStorageSOPClassUID (meta ds2) =
       (if modality2 = ''CT'' then CTImageStorage else MRImageStorage)"
    "generated_uids ds2 = map gen [n1, n1 + 1, n1 + 2, n1 + 3]"
    by (auto simp: create_dicom_file_def generated_uids_def Let_def split: sum.splits prod.splits)
  have "distinct (map gen ([n, n + 1, n + 2, n + 3] @ [n1, n1 + 1, n1 + 2, n1 + 3]))"
    by (simp add: 1(1) inj_eq [OF assms(1)])
  then have "distinct (generated_uids ds1 @ generated_uids ds2)"
    by (simp only: 1(3) 2(2) map_append)
  with 1 2 show ?thesis by simp
qed

theorem create_dicom_file_identifiers_witness:
  "inj sample_uids
   \<and> (\<exists>ds1 ds2. create_dicom_file sample_uids 0 1048576 ''CT'' ''Test^Patient'' = Inr (ds1, 4)
        \<and> create_dicom_file sample_uids 4 1048576 ''MR'' ''Test^Patient'' = Inr (ds2, 8)
        \<and> MediaStorageSOPClassUID (meta ds1) = CTImageStorage
        \<and> MediaStorageSOPClassUID (meta ds2) = MRImageStorage
        \<and> distinct (generated_uids ds1 @ generated_uids ds2))"
proof -
  have d: "calculate_dimensions 1048576 16 = Inr (1024, 507)" by code_simp
  obtain ds1 where a: "create_dicom_file sample_uids 0 1048576 ''CT'' ''Test^Patient'' = Inr (ds1, 4)"
    by (simp add: create_dicom_file_def d Let_def)
  obtain ds2 where b: "create_dicom_file sample_uids 4 1048576 ''MR'' ''Test^Patient'' = Inr (ds2, 8)"
    by (simp add: create_dicom_file_def d Let_def)
  from create_dicom_file_identifiers [OF inj_sample_uids a b] a b inj_sample_uids
  show ?thesis by auto
qed

text \<open>
  Claim C2 as stated (a fresh storage-class identifier in every invocation) fails for
  two invocations with the modality \<^verbatim>\<open>'CT'\<close>: both files carry the same one.
\<close>

theorem storage_class_uid_repeats:
  "MediaStorageSOPClassUID (meta (fst (projr (create_dicom_file sample_uids 0 1048576 ''CT'' ''Test^Patient''))))
     = MediaStorageSOPClassUID (meta (fst (projr (create_dicom_file sample_uids 4 2097152 ''CT'' ''Test^Patient''))))
   \<and> \<not> isl (create_dicom_file sample_uids 0 1048576 ''CT'' ''Test^Patient'')
   \<and> \<not> isl (create_dicom_file sample_uids 4 2097152 ''CT'' ''Test^Patient'')"
proof -
  have d: "calculate_dimensions 1048576 16 = Inr (1024, 507)" by code_simp
  have e': "calculate_dimensions 2097152 16 = Inr (1024, 1019)" by code_simp
  show ?thesis by (simp add: create_dicom_file_def d e' Let_def)
qed

section \<open>Properties of the invocation surface\<close>




end
